theory Spec2Isabelle
  imports Main "HOL-Library.Word"
begin

section \<open>Python values and exceptions\<close>

text \<open>
  The values a decoded JSON body is made of. A float is carried as its 64-bit pattern
  (no function below computes with one); a \<open>dict\<close> is an association list in insertion
  order whose keys are distinct, so that \<open>map_of\<close> is the lookup; a \<open>str\<close> is a list of
  characters.
\<close>

datatype pyval =
    PyNone
  | PyBool bool
  | PyInt int
  | PyFloat "64 word"
  | PyStr string
  | PyList "pyval list"
  | PyDict "(string \<times> pyval) list"

text \<open>
  The exceptions that can leave the functions below. \<open>NotFound\<close> is the class of
  \<^verbatim>\<open>unified.py\<close>; \<open>KeyError\<close>, \<open>TypeError\<close>, \<open>AttributeError\<close> and \<open>RecursionError\<close> are
  Python's own; \<open>FrozenInstanceError\<close> is raised by an assignment to a field of a frozen
  dataclass; \<open>MalformedResponse\<close> is the error kind that the specification gives to the
  decoding of an operation; \<open>External e\<close> is whatever the transport layer raised (a
  connection error, the \<^verbatim>\<open>HTTPError\<close> of \<^verbatim>\<open>response.successful\<close>, a JSON decoding error),
  carried unchanged.
\<close>

datatype 'e error =
    NotFound string
  | KeyError string
  | TypeError
  | AttributeError
  | RecursionError
  | FrozenInstanceError
  | MalformedResponse
  | External 'e

text \<open>\<^verbatim>\<open>x[k]\<close> for a string key: only a dict can be subscripted by a string.\<close>

fun getitem :: "pyval \<Rightarrow> string \<Rightarrow> 'e error + pyval" where
  "getitem (PyDict kvs) k = (case map_of kvs k of None \<Rightarrow> Inl (KeyError k) | Some v \<Rightarrow> Inr v)"
| "getitem _ k = Inl TypeError"

text \<open>\<^verbatim>\<open>x.get(k)\<close>: the value, or \<^verbatim>\<open>None\<close> for a missing key; only a dict has the method.\<close>

fun dict_get :: "pyval \<Rightarrow> string \<Rightarrow> 'e error + pyval" where
  "dict_get (PyDict kvs) k = Inr (case map_of kvs k of None \<Rightarrow> PyNone | Some v \<Rightarrow> v)"
| "dict_get _ k = Inl AttributeError"

text \<open>
  \<^verbatim>\<open>tuple(x)\<close>: the elements of a list, the characters of a string, the keys of a dict;
  nothing else among the JSON values is iterable.
\<close>

fun tuple :: "pyval \<Rightarrow> 'e error + pyval list" where
  "tuple (PyList xs) = Inr xs"
| "tuple (PyStr s) = Inr (map (\<lambda>c. PyStr [c]) s)"
| "tuple (PyDict kvs) = Inr (map (\<lambda>kv. PyStr (fst kv)) kvs)"
| "tuple _ = Inl TypeError"

text \<open>
  \<^verbatim>\<open>copy.deepcopy\<close> of the standard library on values. A value has no identity, so a copy
  that is made is the value itself (the store model further down makes the copy explicit),
  but the library makes it by recursion, and the interpreter bounds the depth of its call
  stack: a document that nests too deep raises \<open>RecursionError\<close>. \<open>room\<close> is the number
  of frames that the stack still has room for when \<^verbatim>\<open>deepcopy\<close> is called; it depends on
  the interpreter's recursion limit and on the depth of the caller. A call of \<^verbatim>\<open>deepcopy\<close>
  takes a frame and calls the copier of the argument's class, which takes another. The
  copier of an atom returns it. The copier of a list or of a dict calls a built-in function,
  which takes a third frame for as long as it runs, and calls \<^verbatim>\<open>deepcopy\<close> from its own
  frame for the elements from left to right (for the keys and values of a dict; a key is a
  string, whose copy needs no more room than the copy of its value), so that the first
  element that is too deep ends the copy. The frames are counted as CPython 3.11 counts
  them.
\<close>

fun copy_each :: "('a \<Rightarrow> 'e + 'b) \<Rightarrow> 'a list \<Rightarrow> 'e + 'b list" where
  "copy_each cp [] = Inr []"
| "copy_each cp (x # xs) =
     (case cp x of
        Inl e \<Rightarrow> Inl e
      | Inr y \<Rightarrow> map_sum id (\<lambda>ys. y # ys) (copy_each cp xs))"

fun deepcopy :: "nat \<Rightarrow> pyval \<Rightarrow> 'e error + pyval" where
  "deepcopy room (PyList xs) =
     (if room < 3 then Inl RecursionError
      else (case copy_each (deepcopy (room - 2)) xs of
              Inl e \<Rightarrow> Inl e
            | Inr ys \<Rightarrow> Inr (PyList ys)))"
| "deepcopy room (PyDict kvs) =
     (if room < 3 then Inl RecursionError
      else (case copy_each (deepcopy (room - 2)) (map snd kvs) of
              Inl e \<Rightarrow> Inl e
            | Inr vs \<Rightarrow> Inr (PyDict (zip (map fst kvs) vs))))"
| "deepcopy room x = (if room < 2 then Inl RecursionError else Inr x)"

text \<open>The number of frames that the copy of a value needs.\<close>

fun frames_needed :: "pyval \<Rightarrow> nat" where
  "frames_needed (PyList xs) = fold max (map (\<lambda>x. 2 + frames_needed x) xs) 3"
| "frames_needed (PyDict kvs) = fold max (map (\<lambda>kv. 2 + frames_needed (snd kv)) kvs) 3"
| "frames_needed x = 2"

section \<open>URLs, requests and sessions\<close>

text \<open>
  \<^verbatim>\<open>URL\<close>, \<^verbatim>\<open>Instance\<close>, \<^verbatim>\<open>Project\<close> and \<^verbatim>\<open>Session\<close> are declared in modules that are not
  among the sources. A URL has the two fields the code reads; the instance type is left
  open; the rendering \<^verbatim>\<open>str(url)\<close> is a parameter \<open>str\<close> of every function that uses it.
\<close>

record 'i URL =
  "instance" :: 'i
  path :: string

record 'i Project =
  url :: "'i URL"

datatype verb = GET | POST

record request =
  verb :: verb
  address :: string
  headers :: "(string \<times> string) list"

text \<open>
  A response, as far as the code looks at it: the status code and what \<^verbatim>\<open>r.json()\<close>
  returns or raises.
\<close>

record 'e Response =
  status_code :: int
  json :: "'e + pyval"

text \<open>
  A session together with the server behind it. \<open>server\<close> gives the reply to a request
  after the requests sent so far (a response, or the exception of a failed connection), so
  that the same request may be answered differently as the server's state advances;
  \<open>sent\<close> is the log of the requests issued through the session, oldest first.
\<close>

record 'e Session =
  server :: "request list \<Rightarrow> request \<Rightarrow> 'e + 'e Response"
  sent :: "request list"

definition issue :: "'e Session \<Rightarrow> request \<Rightarrow> ('e + 'e Response) \<times> 'e Session" where
  "issue session rq = (server session (sent session) rq, session\<lparr>sent := sent session @ [rq]\<rparr>)"

definition get_request :: "string \<Rightarrow> request" where
  "get_request u = \<lparr>verb = GET, address = u, headers = []\<rparr>"

definition post_request :: "string \<Rightarrow> (string \<times> string) list \<Rightarrow> request" where
  "post_request u hs = \<lparr>verb = POST, address = u, headers = hs\<rparr>"

definition session_get :: "'e Session \<Rightarrow> string \<Rightarrow> ('e + 'e Response) \<times> 'e Session" where
  "session_get session u = issue session (get_request u)"

definition session_post ::
  "'e Session \<Rightarrow> string \<Rightarrow> (string \<times> string) list \<Rightarrow> ('e + 'e Response) \<times> 'e Session" where
  "session_post session u hs = issue session (post_request u hs)"

section \<open>Operations and the follower\<close>

text \<open>
  Modelled from the spec: the module \<^verbatim>\<open>tamr_client.operation\<close> (the \<^verbatim>\<open>Operation\<close>
  snapshot, its decoding, \<^verbatim>\<open>operation.wait\<close>) is not among the sources. The snapshot has
  the fields of the specification's data model; \<open>state\<close> is an open enumeration, kept as
  the server's label.
\<close>

record 'i Operation =
  url :: "'i URL"
  state :: string
  description :: pyval
  type :: pyval

text \<open>Modelled from the spec: the fixed terminal subset of the states.\<close>

definition terminal_states :: "string list" where
  "terminal_states = [''SUCCEEDED'', ''FAILED'', ''CANCELED'']"

text \<open>
  Modelled from the spec: the predicate "is terminal", derived from \<open>state\<close> membership in
  the terminal set alone.
\<close>

definition is_terminal :: "'i Operation \<Rightarrow> bool" where
  "is_terminal op = (state op \<in> set terminal_states)"

text \<open>
  Modelled from the spec: decoding of a polled JSON document into a snapshot for a known
  URL. The state field is required and must be a string, otherwise the decoding fails with
  \<open>MalformedResponse\<close>; description and type are informational and taken as they come.
\<close>

definition operation_from_json :: "'i URL \<Rightarrow> pyval \<Rightarrow> 'e error + 'i Operation" where
  "operation_from_json u data =
     (case data of
        PyDict kvs \<Rightarrow>
          (case map_of kvs ''state'' of
             Some (PyStr st) \<Rightarrow>
               Inr \<lparr>Operation.url = u, state = st,
                    Operation.description = (case map_of kvs ''description'' of None \<Rightarrow> PyNone | Some v \<Rightarrow> v),
                    type = (case map_of kvs ''type'' of None \<Rightarrow> PyNone | Some v \<Rightarrow> v)\<rparr>
           | _ \<Rightarrow> Inl MalformedResponse)
      | _ \<Rightarrow> Inl MalformedResponse)"

text \<open>
  Modelled from the spec: one poll is a GET against the operation's URL whose body is
  decoded into a new snapshot. A 404 is the not-found error kind, any other status that
  the transport layer's check \<open>successful\<close> rejects is that layer's error, and so is a body
  that is no JSON; each ends the poll.
\<close>

definition poll ::
  "('e Response \<Rightarrow> 'e + 'e Response) \<Rightarrow> ('i URL \<Rightarrow> string) \<Rightarrow> 'e Session \<Rightarrow> 'i Operation
     \<Rightarrow> ('e error + 'i Operation) \<times> 'e Session" where
  "poll successful str session op =
     (case session_get session (str (Operation.url op)) of
        (reply, session') \<Rightarrow>
          (case reply of
             Inl e \<Rightarrow> (Inl (External e), session')
           | Inr r \<Rightarrow>
               if status_code r = 404 then (Inl (NotFound (str (Operation.url op))), session')
               else (case successful r of
                       Inl e \<Rightarrow> (Inl (External e), session')
                     | Inr r' \<Rightarrow>
                         (case json r' of
                            Inl e \<Rightarrow> (Inl (External e), session')
                          | Inr data \<Rightarrow> (operation_from_json (Operation.url op) data, session')))))"

text \<open>
  Modelled from the spec: the follower. An unbounded loop: a snapshot in a terminal state
  is returned at once; otherwise the operation is polled, an error of the poll ends the loop
  and is returned as it is, and a new snapshot is looked at in turn. The delay between two
  polls changes no value and is left out. \<open>None\<close> is a loop that never ends.
\<close>

partial_function (option) wait ::
  "('e Response \<Rightarrow> 'e + 'e Response) \<Rightarrow> ('i URL \<Rightarrow> string) \<Rightarrow> 'e Session \<Rightarrow> 'i Operation
     \<Rightarrow> (('e error + 'i Operation) \<times> 'e Session) option" where
  "wait successful str session op =
     (if is_terminal op then Some (Inr op, session)
      else (case poll successful str session op of
              (res, session') \<Rightarrow>
                (case res of
                   Inl e \<Rightarrow> Some (Inl e, session')
                 | Inr op' \<Rightarrow> wait successful str session' op')))"

section \<open>Unified datasets (\<^verbatim>\<open>tamr_client/dataset/unified.py\<close>)\<close>

text \<open>
  The frozen dataclass. Python does not check the annotations, so a field holds whatever
  value the JSON document had; \<open>'v\<close> is the type of those values (\<open>pyval\<close> here, references
  into a store further down). A \<open>description\<close> of \<^verbatim>\<open>None\<close> is \<open>PyNone\<close>.
\<close>

record ('i, 'v) UnifiedDataset =
  url :: "'i URL"
  name :: 'v
  key_attribute_names :: "'v list"
  description :: 'v

text \<open>
  \<^verbatim>\<open>_from_json\<close>, called with room for \<open>room\<close> frames on the stack. The copy comes first;
  the arguments of the constructor call are then evaluated from left to right, so the
  first one that raises decides the exception.
\<close>

definition from_json :: "nat \<Rightarrow> 'i URL \<Rightarrow> pyval \<Rightarrow> 'e error + ('i, pyval) UnifiedDataset" where
  "from_json room u data =
     (case deepcopy room data of
        Inl e \<Rightarrow> Inl e
      | Inr cp \<Rightarrow>
          (case getitem cp ''name'' of
             Inl e \<Rightarrow> Inl e
           | Inr n \<Rightarrow>
               (case dict_get cp ''description'' of
                  Inl e \<Rightarrow> Inl e
                | Inr d \<Rightarrow>
                    (case getitem cp ''keyAttributeNames'' of
                       Inl e \<Rightarrow> Inl e
                     | Inr k \<Rightarrow>
                         (case tuple k of
                            Inl e \<Rightarrow> Inl e
                          | Inr ks \<Rightarrow>
                              Inr \<lparr>url = u, name = n, key_attribute_names = ks,
                                   description = d\<rparr>)))))"

text \<open>
  \<^verbatim>\<open>_from_url\<close>. \<^verbatim>\<open>response.successful\<close> is not among the sources: it is the parameter
  \<open>successful\<close>, which returns the response or raises the transport layer's error. \<open>room\<close>
  is the room on the stack at the call of \<^verbatim>\<open>_from_json\<close>.
\<close>

definition from_url ::
  "('e Response \<Rightarrow> 'e + 'e Response) \<Rightarrow> ('i URL \<Rightarrow> string) \<Rightarrow> nat \<Rightarrow> 'e Session \<Rightarrow> 'i URL
     \<Rightarrow> ('e error + ('i, pyval) UnifiedDataset) \<times> 'e Session" where
  "from_url successful str room session u =
     (case session_get session (str u) of
        (reply, session') \<Rightarrow>
          (case reply of
             Inl e \<Rightarrow> (Inl (External e), session')
           | Inr r \<Rightarrow>
               if status_code r = 404 then (Inl (NotFound (str u)), session')
               else (case successful r of
                       Inl e \<Rightarrow> (Inl (External e), session')
                     | Inr r' \<Rightarrow>
                         (case json r' of
                            Inl e \<Rightarrow> (Inl (External e), session')
                          | Inr data \<Rightarrow> (from_json room u data, session')))))"

text \<open>\<^verbatim>\<open>from_project\<close>.\<close>

definition from_project ::
  "('e Response \<Rightarrow> 'e + 'e Response) \<Rightarrow> ('i URL \<Rightarrow> string) \<Rightarrow> nat \<Rightarrow> 'e Session \<Rightarrow> 'i
     \<Rightarrow> 'i Project \<Rightarrow> ('e error + ('i, pyval) UnifiedDataset) \<times> 'e Session" where
  "from_project successful str room session inst project =
     (let u = \<lparr>instance = inst, path = path (Project.url project) @ ''/unifiedDataset''\<rparr>
      in from_url successful str room session u)"

text \<open>
  \<^verbatim>\<open>_apply_changes_async\<close>. \<^verbatim>\<open>operation._from_response\<close> is not among the sources and the
  specification does not say how it finds the operation's URL in the body: it is the
  parameter \<open>from_response\<close>, which returns the initial snapshot or raises.
\<close>

definition refresh_headers :: "(string \<times> string) list" where
  "refresh_headers = [(''Content-Type'', ''application/json''), (''Accept'', ''application/json'')]"

definition apply_changes_async ::
  "('i URL \<Rightarrow> string) \<Rightarrow> ('i \<Rightarrow> 'e Response \<Rightarrow> 'e error + 'i Operation) \<Rightarrow> 'e Session
     \<Rightarrow> ('i, 'v) UnifiedDataset \<Rightarrow> ('e error + 'i Operation) \<times> 'e Session" where
  "apply_changes_async str from_response session unified_dataset =
     (case session_post session (str (url unified_dataset) @ '':refresh'') refresh_headers of
        (reply, session') \<Rightarrow>
          (case reply of
             Inl e \<Rightarrow> (Inl (External e), session')
           | Inr r \<Rightarrow> (from_response (instance (url unified_dataset)) r, session')))"

text \<open>\<^verbatim>\<open>apply_changes\<close>: the request, then the follower on the snapshot it returned.\<close>

definition apply_changes ::
  "('e Response \<Rightarrow> 'e + 'e Response) \<Rightarrow> ('i URL \<Rightarrow> string)
     \<Rightarrow> ('i \<Rightarrow> 'e Response \<Rightarrow> 'e error + 'i Operation) \<Rightarrow> 'e Session
     \<Rightarrow> ('i, 'v) UnifiedDataset \<Rightarrow> (('e error + 'i Operation) \<times> 'e Session) option" where
  "apply_changes successful str from_response session unified_dataset =
     (case apply_changes_async str from_response session unified_dataset of
        (res, session') \<Rightarrow>
          (case res of
             Inl e \<Rightarrow> Some (Inl e, session')
           | Inr op \<Rightarrow> wait successful str session' op))"

section \<open>Notions used in the statements\<close>

text \<open>
  A successful reply with the body \<open>doc\<close>: the server answers the next request \<open>rq\<close> of the
  session with a response that is no 404, that the transport layer's check accepts and whose
  body decodes to \<open>doc\<close>.
\<close>

definition answers ::
  "('e Response \<Rightarrow> 'e + 'e Response) \<Rightarrow> 'e Session \<Rightarrow> request \<Rightarrow> pyval \<Rightarrow> bool" where
  "answers successful session rq doc =
     (case server session (sent session) rq of
        Inl e \<Rightarrow> False
      | Inr r \<Rightarrow>
          status_code r \<noteq> 404 \<and>
          (case successful r of Inl e \<Rightarrow> False | Inr r' \<Rightarrow> json r' = Inr doc))"

text \<open>The state label of an operation document, if it has one that is a string.\<close>

definition doc_state :: "pyval \<Rightarrow> string option" where
  "doc_state data =
     (case data of
        PyDict kvs \<Rightarrow> (case map_of kvs ''state'' of Some (PyStr st) \<Rightarrow> Some st | _ \<Rightarrow> None)
      | _ \<Rightarrow> None)"

text \<open>
  What the specification asks of a unified dataset document, with the types of the
  dataclass annotations: \<open>name\<close> is a string and \<open>keyAttributeNames\<close> a list of strings.
\<close>

definition is_str :: "pyval \<Rightarrow> bool" where
  "is_str v = (case v of PyStr s \<Rightarrow> True | _ \<Rightarrow> False)"

definition required_fields_ok :: "pyval \<Rightarrow> bool" where
  "required_fields_ok data =
     (case data of
        PyDict kvs \<Rightarrow>
          (case map_of kvs ''name'' of Some (PyStr s) \<Rightarrow> True | _ \<Rightarrow> False) \<and>
          (case map_of kvs ''keyAttributeNames'' of
             Some (PyList xs) \<Rightarrow> list_all is_str xs
           | _ \<Rightarrow> False)
      | _ \<Rightarrow> False)"

text \<open>The JSON values that \<^verbatim>\<open>tuple\<close> rejects: null, booleans and numbers.\<close>

definition not_iterable :: "pyval \<Rightarrow> bool" where
  "not_iterable v =
     (case v of PyList xs \<Rightarrow> False | PyStr s \<Rightarrow> False | PyDict kvs \<Rightarrow> False | _ \<Rightarrow> True)"

section \<open>Mastering projects (\<^verbatim>\<open>tamr_unify_client/models/project/mastering.py\<close>)\<close>

text \<open>
  The three methods of \<^verbatim>\<open>MasteringProject\<close> that find a dataset through the name of the
  unified dataset. The classes around them (\<^verbatim>\<open>Project\<close>, \<^verbatim>\<open>Dataset\<close>, the client and its
  dataset collection) are not among the sources:
  \<^item> the client is the state that is threaded through; \<open>datasets\<close> is what the server's
    collection answers to a lookup by name (a dataset, or the exception of a failed lookup)
    and \<open>looked_up\<close> the log of the names asked for, so that \<open>by_name\<close> is one logged lookup;
  \<^item> \<^verbatim>\<open>self.unified_dataset()\<close>, the \<^verbatim>\<open>name\<close> property and the \<^verbatim>\<open>_data\<close> attribute of a
    dataset and \<^verbatim>\<open>Dataset.from_json\<close> are the parameters \<open>unified_dataset\<close>, \<open>name_of\<close>,
    \<open>data_of\<close> and \<open>dataset_from_json\<close>.
\<close>

record ('d, 'x) Client =
  datasets :: "string \<Rightarrow> 'x + 'd"
  looked_up :: "string list"

definition by_name :: "('d, 'x) Client \<Rightarrow> string \<Rightarrow> ('x + 'd) \<times> ('d, 'x) Client" where
  "by_name client dataset_name =
     (datasets client dataset_name, client\<lparr>looked_up := looked_up client @ [dataset_name]\<rparr>)"

record MasteringProject =
  api_path :: string

definition published_clusters ::
  "(MasteringProject \<Rightarrow> ('d, 'x) Client \<Rightarrow> ('x + 'd) \<times> ('d, 'x) Client) \<Rightarrow> ('d \<Rightarrow> string)
     \<Rightarrow> ('d \<Rightarrow> pyval) \<Rightarrow> (pyval \<Rightarrow> string \<Rightarrow> 'x + 'd) \<Rightarrow> MasteringProject \<Rightarrow> ('d, 'x) Client
     \<Rightarrow> ('x + 'd) \<times> ('d, 'x) Client" where
  "published_clusters unified_dataset name_of data_of dataset_from_json self client =
     (case unified_dataset self client of
        (r, client1) \<Rightarrow>
          (case r of
             Inl e \<Rightarrow> (Inl e, client1)
           | Inr ud \<Rightarrow>
               (let name = name_of ud @ ''_dedup_published_clusters'' in
                case by_name client1 name of
                  (r', client2) \<Rightarrow>
                    (case r' of
                       Inl e \<Rightarrow> (Inl e, client2)
                     | Inr canonical \<Rightarrow>
                         (let resource_json = data_of canonical;
                              alias = api_path self @ ''/publishedClusters''
                          in (dataset_from_json resource_json alias, client2))))))"

definition record_clusters_with_data ::
  "(MasteringProject \<Rightarrow> ('d, 'x) Client \<Rightarrow> ('x + 'd) \<times> ('d, 'x) Client) \<Rightarrow> ('d \<Rightarrow> string)
     \<Rightarrow> MasteringProject \<Rightarrow> ('d, 'x) Client \<Rightarrow> ('x + 'd) \<times> ('d, 'x) Client" where
  "record_clusters_with_data unified_dataset name_of self client =
     (case unified_dataset self client of
        (r, client1) \<Rightarrow>
          (case r of
             Inl e \<Rightarrow> (Inl e, client1)
           | Inr ud \<Rightarrow>
               (let name = name_of ud @ ''_dedup_clusters_with_data''
                in by_name client1 name)))"

definition published_clusters_with_data ::
  "(MasteringProject \<Rightarrow> ('d, 'x) Client \<Rightarrow> ('x + 'd) \<times> ('d, 'x) Client) \<Rightarrow> ('d \<Rightarrow> string)
     \<Rightarrow> MasteringProject \<Rightarrow> ('d, 'x) Client \<Rightarrow> ('x + 'd) \<times> ('d, 'x) Client" where
  "published_clusters_with_data unified_dataset name_of self client =
     (case unified_dataset self client of
        (r, client1) \<Rightarrow>
          (case r of
             Inl e \<Rightarrow> (Inl e, client1)
           | Inr ud \<Rightarrow>
               (let name = name_of ud @ ''_dedup_published_clusters_with_data''
                in by_name client1 name)))"

section \<open>Values in a store\<close>

text \<open>
  Lists and dicts are mutable objects with an identity. For the properties that depend on
  who shares which object, a value is an immutable atom or a reference to an object of the
  store; the store maps the addresses below \<open>next_free\<close> to the objects allocated so far. The
  keys of a dict that comes from JSON are strings.
\<close>

datatype val = VNone | VBool bool | VInt int | VFloat "64 word" | VStr string | VRef nat

datatype hobj = HList "val list" | HDict "(string \<times> val) list"

record store =
  objs :: "nat \<Rightarrow> hobj"
  next_free :: nat

type_synonym memo = "nat \<rightharpoonup> nat"

definition alloc :: "hobj \<Rightarrow> store \<Rightarrow> nat \<times> store" where
  "alloc x s = (next_free s, s\<lparr>objs := (objs s)(next_free s := x), next_free := Suc (next_free s)\<rparr>)"

definition put_obj :: "nat \<Rightarrow> hobj \<Rightarrow> store \<Rightarrow> store" where
  "put_obj a x s = s\<lparr>objs := (objs s)(a := x)\<rparr>"

text \<open>
  \<^verbatim>\<open>copy.deepcopy\<close> of the standard library, with its memo from the addresses of the
  originals to the addresses of their copies. An atom is its own copy. An object that the
  memo knows is copied to the copy recorded there. Otherwise a new empty list or dict is
  allocated and entered in the memo, the elements are copied from left to right with the
  growing memo, and the new object receives the copies (the library appends them one by one;
  copying an element never reads the new object, so filling it at the end gives the same
  store). The recursion of the library is bounded here by \<open>fuel\<close>; \<open>None\<close> is fuel that ran
  out: a copy that nests deeper than the bound, which the interpreter ends with
  \<open>RecursionError\<close> when the bound is the room on its stack.
\<close>

fun copy_items ::
  "(val \<Rightarrow> store \<times> memo \<Rightarrow> (val \<times> store \<times> memo) option) \<Rightarrow> val list \<Rightarrow> store \<times> memo
     \<Rightarrow> (val list \<times> store \<times> memo) option" where
  "copy_items cp [] sm = Some ([], sm)"
| "copy_items cp (x # xs) sm =
     (case cp x sm of
        None \<Rightarrow> None
      | Some (y, sm1) \<Rightarrow>
          (case copy_items cp xs sm1 of
             None \<Rightarrow> None
           | Some (ys, sm2) \<Rightarrow> Some (y # ys, sm2)))"

fun deepcopy_st :: "nat \<Rightarrow> val \<Rightarrow> store \<times> memo \<Rightarrow> (val \<times> store \<times> memo) option" where
  "deepcopy_st 0 v sm = None"
| "deepcopy_st (Suc n) (VRef a) (s, m) =
     (case m a of
        Some b \<Rightarrow> Some (VRef b, s, m)
      | None \<Rightarrow>
          (case objs s a of
             HList xs \<Rightarrow>
               (case alloc (HList []) s of
                  (b, s1) \<Rightarrow>
                    (case copy_items (deepcopy_st n) xs (s1, m(a \<mapsto> b)) of
                       None \<Rightarrow> None
                     | Some (ys, s2, m2) \<Rightarrow> Some (VRef b, put_obj b (HList ys) s2, m2)))
           | HDict kvs \<Rightarrow>
               (case alloc (HDict []) s of
                  (b, s1) \<Rightarrow>
                    (case copy_items (deepcopy_st n) (map snd kvs) (s1, m(a \<mapsto> b)) of
                       None \<Rightarrow> None
                     | Some (ys, s2, m2) \<Rightarrow>
                         Some (VRef b, put_obj b (HDict (zip (map fst kvs) ys)) s2, m2)))))"
| "deepcopy_st (Suc n) v sm = Some (v, sm)"

text \<open>Subscript, \<^verbatim>\<open>get\<close> and \<^verbatim>\<open>tuple\<close> on a value in a store.\<close>

fun getitem_st :: "store \<Rightarrow> val \<Rightarrow> string \<Rightarrow> 'e error + val" where
  "getitem_st s (VRef a) k =
     (case objs s a of
        HDict kvs \<Rightarrow> (case map_of kvs k of None \<Rightarrow> Inl (KeyError k) | Some v \<Rightarrow> Inr v)
      | HList xs \<Rightarrow> Inl TypeError)"
| "getitem_st s _ k = Inl TypeError"

fun dict_get_st :: "store \<Rightarrow> val \<Rightarrow> string \<Rightarrow> 'e error + val" where
  "dict_get_st s (VRef a) k =
     (case objs s a of
        HDict kvs \<Rightarrow> Inr (case map_of kvs k of None \<Rightarrow> VNone | Some v \<Rightarrow> v)
      | HList xs \<Rightarrow> Inl AttributeError)"
| "dict_get_st s _ k = Inl AttributeError"

fun tuple_st :: "store \<Rightarrow> val \<Rightarrow> 'e error + val list" where
  "tuple_st s (VRef a) =
     (case objs s a of
        HList xs \<Rightarrow> Inr xs
      | HDict kvs \<Rightarrow> Inr (map (\<lambda>kv. VStr (fst kv)) kvs))"
| "tuple_st s (VStr str) = Inr (map (\<lambda>c. VStr [c]) str)"
| "tuple_st s _ = Inl TypeError"

text \<open>
  \<^verbatim>\<open>_from_json\<close> on a store: the copy is made with an empty memo, the fields are read from
  the copy, and the store is returned with the objects of the copy in it.
\<close>

definition from_json_st ::
  "nat \<Rightarrow> 'i URL \<Rightarrow> val \<Rightarrow> store \<Rightarrow> (('e error + ('i, val) UnifiedDataset) \<times> store) option" where
  "from_json_st fuel u data s =
     (case deepcopy_st fuel data (s, Map.empty) of
        None \<Rightarrow> None
      | Some (cp, s', m) \<Rightarrow>
          Some (case getitem_st s' cp ''name'' of
                  Inl e \<Rightarrow> Inl e
                | Inr n \<Rightarrow>
                    (case dict_get_st s' cp ''description'' of
                       Inl e \<Rightarrow> Inl e
                     | Inr d \<Rightarrow>
                         (case getitem_st s' cp ''keyAttributeNames'' of
                            Inl e \<Rightarrow> Inl e
                          | Inr k \<Rightarrow>
                              (case tuple_st s' k of
                                 Inl e \<Rightarrow> Inl e
                               | Inr ks \<Rightarrow>
                                   Inr \<lparr>url = u, name = n, key_attribute_names = ks,
                                        description = d\<rparr>))),
                s'))"

text \<open>
  What a value of the store stands for: \<open>deep s v t\<close> holds when \<open>v\<close>, followed through the
  allocated objects of \<open>s\<close>, unfolds to the JSON value \<open>t\<close>. Python's \<^verbatim>\<open>==\<close> on lists,
  dicts and strings compares what they unfold to.
\<close>

inductive deep :: "store \<Rightarrow> val \<Rightarrow> pyval \<Rightarrow> bool" for s :: store where
  deep_None: "deep s VNone PyNone"
| deep_Bool: "deep s (VBool b) (PyBool b)"
| deep_Int: "deep s (VInt i) (PyInt i)"
| deep_Float: "deep s (VFloat f) (PyFloat f)"
| deep_Str: "deep s (VStr str) (PyStr str)"
| deep_List: "a < next_free s \<Longrightarrow> objs s a = HList xs \<Longrightarrow> list_all2 (deep s) xs ts \<Longrightarrow>
     deep s (VRef a) (PyList ts)"
| deep_Dict: "a < next_free s \<Longrightarrow> objs s a = HDict kvs \<Longrightarrow>
     list_all2 (deep s) (map snd kvs) ts \<Longrightarrow>
     deep s (VRef a) (PyDict (zip (map fst kvs) ts))"

text \<open>
  The references of a value and of an object, the elements of an object and the object with
  other elements in the same places.
\<close>

fun refs_val :: "val \<Rightarrow> nat set" where
  "refs_val (VRef a) = {a}"
| "refs_val _ = {}"

fun elems :: "hobj \<Rightarrow> val list" where
  "elems (HList xs) = xs"
| "elems (HDict kvs) = map snd kvs"

fun with_elems :: "hobj \<Rightarrow> val list \<Rightarrow> hobj" where
  "with_elems (HList xs) ys = HList ys"
| "with_elems (HDict kvs) ys = HDict (zip (map fst kvs) ys)"

definition refs_obj :: "hobj \<Rightarrow> nat set" where
  "refs_obj x = (\<Union>v \<in> set (elems x). refs_val v)"

text \<open>A value and an object with every reference replaced by what the memo gives for it.\<close>

fun rename :: "memo \<Rightarrow> val \<Rightarrow> val" where
  "rename m (VRef a) = (case m a of None \<Rightarrow> VRef a | Some b \<Rightarrow> VRef b)"
| "rename m v = v"

definition rename_obj :: "memo \<Rightarrow> hobj \<Rightarrow> hobj" where
  "rename_obj m x = with_elems x (map (rename m) (elems x))"

text \<open>A store without dangling references: every allocated object refers to allocated objects.\<close>

definition well_formed :: "store \<Rightarrow> bool" where
  "well_formed s = (\<forall>a < next_free s. refs_obj (objs s a) \<subseteq> {..< next_free s})"

text \<open>
  The states a copy passes through. \<open>copying L sm\<close>: the objects below \<open>L\<close> (the store at the
  start of the copy) refer to each other only, and the memo knows originals only.
  \<open>extends L sm sm'\<close>: from \<open>sm\<close> to \<open>sm'\<close> the memo and the store have grown, no object that
  existed has been changed, and every original that the memo has learnt has a finished copy:
  a new object that is the original with its references replaced through the memo.
  \<open>during s0 sm\<close>: a state of a copy in a store that still holds the objects of \<open>s0\<close>.
\<close>

definition copying :: "nat \<Rightarrow> store \<times> memo \<Rightarrow> bool" where
  "copying L sm =
     (case sm of (s, m) \<Rightarrow>
        L \<le> next_free s \<and> (\<forall>a < L. refs_obj (objs s a) \<subseteq> {..< L}) \<and> dom m \<subseteq> {..< L})"

definition extends :: "nat \<Rightarrow> store \<times> memo \<Rightarrow> store \<times> memo \<Rightarrow> bool" where
  "extends L sm sm' =
     (case sm of (s, m) \<Rightarrow> case sm' of (s', m') \<Rightarrow>
        m \<subseteq>\<^sub>m m' \<and> next_free s \<le> next_free s' \<and>
        (\<forall>a < next_free s. objs s' a = objs s a) \<and>
        dom m' \<subseteq> {..< L} \<and>
        (\<forall>a b. m' a = Some b \<and> m a = None \<longrightarrow>
           next_free s \<le> b \<and> b < next_free s' \<and>
           objs s' b = rename_obj m' (objs s a) \<and> refs_obj (objs s a) \<subseteq> dom m'))"

definition during :: "store \<Rightarrow> store \<times> memo \<Rightarrow> bool" where
  "during s0 sm =
     (copying (next_free s0) sm \<and> (\<forall>a < next_free s0. objs (fst sm) a = objs s0 a))"

text \<open>A set of allocated objects that refer to each other only.\<close>

definition closed_set :: "nat set \<Rightarrow> store \<Rightarrow> bool" where
  "closed_set R s = (\<forall>b \<in> R. b < next_free s \<and> refs_obj (objs s b) \<subseteq> R)"

text \<open>The constructor call of \<^verbatim>\<open>_from_json\<close> with its arguments, on the copy \<open>cp\<close>.\<close>

definition construct :: "store \<Rightarrow> 'i URL \<Rightarrow> val \<Rightarrow> 'e error + ('i, val) UnifiedDataset" where
  "construct s u cp =
     (case getitem_st s cp ''name'' of
        Inl e \<Rightarrow> Inl e
      | Inr n \<Rightarrow>
          (case dict_get_st s cp ''description'' of
             Inl e \<Rightarrow> Inl e
           | Inr d \<Rightarrow>
               (case getitem_st s cp ''keyAttributeNames'' of
                  Inl e \<Rightarrow> Inl e
                | Inr k \<Rightarrow>
                    (case tuple_st s k of
                       Inl e \<Rightarrow> Inl e
                     | Inr ks \<Rightarrow>
                         Inr \<lparr>url = u, name = n, key_attribute_names = ks, description = d\<rparr>))))"

text \<open>The same constructor call on a JSON value.\<close>

definition construct_value :: "'i URL \<Rightarrow> pyval \<Rightarrow> 'e error + ('i, pyval) UnifiedDataset" where
  "construct_value u cp =
     (case getitem cp ''name'' of
        Inl e \<Rightarrow> Inl e
      | Inr n \<Rightarrow>
          (case dict_get cp ''description'' of
             Inl e \<Rightarrow> Inl e
           | Inr d \<Rightarrow>
               (case getitem cp ''keyAttributeNames'' of
                  Inl e \<Rightarrow> Inl e
                | Inr k \<Rightarrow>
                    (case tuple k of
                       Inl e \<Rightarrow> Inl e
                     | Inr ks \<Rightarrow>
                         Inr \<lparr>url = u, name = n, key_attribute_names = ks, description = d\<rparr>))))"

text \<open>
  The values held by the fields of a dataset (the URL apart), and when a dataset in a store
  stands for a dataset of JSON values.
\<close>

definition field_values :: "('i, val) UnifiedDataset \<Rightarrow> val list" where
  "field_values ds = name ds # description ds # key_attribute_names ds"

definition same_dataset ::
  "store \<Rightarrow> ('i, val) UnifiedDataset \<Rightarrow> ('i, pyval) UnifiedDataset \<Rightarrow> bool" where
  "same_dataset s ds dt =
     (url ds = url dt \<and> deep s (name ds) (name dt) \<and>
      list_all2 (deep s) (key_attribute_names ds) (key_attribute_names dt) \<and>
      deep s (description ds) (description dt))"

text \<open>
  Equality of two datasets as the dataclass defines it: field by field, where two values are
  equal when they unfold to the same JSON value.
\<close>

definition py_eq :: "store \<Rightarrow> val \<Rightarrow> val \<Rightarrow> bool" where
  "py_eq s v w = (\<exists>t. deep s v t \<and> deep s w t)"

definition equal_datasets ::
  "store \<Rightarrow> ('i, val) UnifiedDataset \<Rightarrow> ('i, val) UnifiedDataset \<Rightarrow> bool" where
  "equal_datasets s d1 d2 =
     (url d1 = url d2 \<and> list_all2 (py_eq s) (field_values d1) (field_values d2))"

section \<open>Snapshots as objects\<close>

text \<open>
  An instance of a dataclass is an object with an identity as well. For the properties that
  are about which snapshot an operation of the client changes or makes, the instances
  constructed so far are kept in the order of their construction: a reference to an instance
  is its position, and a constructor call appends the new instance. The fields of a dataset
  hold values of the store, the fields of an operation decoded JSON values. A reference that
  a function receives is to an instance that exists.
\<close>

record 'i instances =
  dataset_objs :: "('i, val) UnifiedDataset list"
  operation_objs :: "'i Operation list"

text \<open>The constructor call of \<^verbatim>\<open>UnifiedDataset\<close>.\<close>

definition new_dataset :: "('i, val) UnifiedDataset \<Rightarrow> 'i instances \<Rightarrow> nat \<times> 'i instances" where
  "new_dataset ds h = (length (dataset_objs h), h\<lparr>dataset_objs := dataset_objs h @ [ds]\<rparr>)"

text \<open>Modelled from the spec: the construction of an operation snapshot.\<close>

definition new_operation :: "'i Operation \<Rightarrow> 'i instances \<Rightarrow> nat \<times> 'i instances" where
  "new_operation op h = (length (operation_objs h), h\<lparr>operation_objs := operation_objs h @ [op]\<rparr>)"

text \<open>
  \<^verbatim>\<open>@dataclass(frozen=True)\<close> of \<^verbatim>\<open>unified.py\<close>: the \<^verbatim>\<open>__setattr__\<close> that the decorator
  generates raises \<open>FrozenInstanceError\<close> for whatever field and value, and assigns nothing.
\<close>

definition dataset_setattr ::
  "'i instances \<Rightarrow> nat \<Rightarrow> string \<Rightarrow> 'v \<Rightarrow> ('e error + unit) \<times> 'i instances" where
  "dataset_setattr h a field v = (Inl FrozenInstanceError, h)"

text \<open>
  Modelled from the spec: an operation snapshot is immutable and has no mutating
  operations; an assignment to one of its fields raises as that of a frozen dataclass does.
\<close>

definition operation_setattr ::
  "'i instances \<Rightarrow> nat \<Rightarrow> string \<Rightarrow> 'v \<Rightarrow> ('e error + unit) \<times> 'i instances" where
  "operation_setattr h a field v = (Inl FrozenInstanceError, h)"

text \<open>
  \<^verbatim>\<open>_from_json\<close> with the instance it constructs: the decoding in the store, then the
  constructor call, which makes a new instance; an exception makes none.
\<close>

definition from_json_obj ::
  "nat \<Rightarrow> 'i URL \<Rightarrow> val \<Rightarrow> store \<Rightarrow> 'i instances
     \<Rightarrow> (('e error + nat) \<times> store \<times> 'i instances) option" where
  "from_json_obj fuel u data s h =
     (case from_json_st fuel u data s of
        None \<Rightarrow> None
      | Some (res, s') \<Rightarrow>
          (case res of
             Inl e \<Rightarrow> Some (Inl e, s', h)
           | Inr ds \<Rightarrow> (case new_dataset ds h of (a, h') \<Rightarrow> Some (Inr a, s', h'))))"

text \<open>
  Modelled from the spec: one poll of the operation at \<open>a\<close>. The request and the decoding are
  those of \<open>poll\<close> on the snapshot found there; every poll that decodes a snapshot produces a
  brand-new one, a new instance, and a poll that fails makes none.
\<close>

definition poll_obj ::
  "('e Response \<Rightarrow> 'e + 'e Response) \<Rightarrow> ('i URL \<Rightarrow> string) \<Rightarrow> 'e Session \<Rightarrow> nat \<Rightarrow> 'i instances
     \<Rightarrow> ('e error + nat) \<times> 'e Session \<times> 'i instances" where
  "poll_obj successful str session a h =
     (case poll successful str session (operation_objs h ! a) of
        (res, session') \<Rightarrow>
          (case res of
             Inl e \<Rightarrow> (Inl e, session', h)
           | Inr op' \<Rightarrow> (case new_operation op' h of (b, h') \<Rightarrow> (Inr b, session', h'))))"

text \<open>
  Modelled from the spec: the follower on references. The snapshot at \<open>a\<close> is returned at
  once when its state is terminal; otherwise the operation is polled and the loop goes on
  with the reference to the new snapshot. \<open>None\<close> is a loop that never ends.
\<close>

partial_function (option) wait_obj ::
  "('e Response \<Rightarrow> 'e + 'e Response) \<Rightarrow> ('i URL \<Rightarrow> string) \<Rightarrow> 'e Session \<Rightarrow> nat \<Rightarrow> 'i instances
     \<Rightarrow> (('e error + nat) \<times> 'e Session \<times> 'i instances) option" where
  "wait_obj successful str session a h =
     (if is_terminal (operation_objs h ! a) then Some (Inr a, session, h)
      else (case poll_obj successful str session a h of
              (res, session', h') \<Rightarrow>
                (case res of
                   Inl e \<Rightarrow> Some (Inl e, session', h')
                 | Inr b \<Rightarrow> wait_obj successful str session' b h')))"

text \<open>
  \<^verbatim>\<open>_apply_changes_async\<close> and \<^verbatim>\<open>apply_changes\<close> on a reference to the dataset: the dataset
  is read, and the snapshot that \<^verbatim>\<open>operation._from_response\<close> returns is a new instance.
\<close>

definition apply_changes_async_obj ::
  "('i URL \<Rightarrow> string) \<Rightarrow> ('i \<Rightarrow> 'e Response \<Rightarrow> 'e error + 'i Operation) \<Rightarrow> 'e Session \<Rightarrow> nat
     \<Rightarrow> 'i instances \<Rightarrow> ('e error + nat) \<times> 'e Session \<times> 'i instances" where
  "apply_changes_async_obj str from_response session a h =
     (case apply_changes_async str from_response session (dataset_objs h ! a) of
        (res, session') \<Rightarrow>
          (case res of
             Inl e \<Rightarrow> (Inl e, session', h)
           | Inr op \<Rightarrow> (case new_operation op h of (b, h') \<Rightarrow> (Inr b, session', h'))))"

definition apply_changes_obj ::
  "('e Response \<Rightarrow> 'e + 'e Response) \<Rightarrow> ('i URL \<Rightarrow> string)
     \<Rightarrow> ('i \<Rightarrow> 'e Response \<Rightarrow> 'e error + 'i Operation) \<Rightarrow> 'e Session \<Rightarrow> nat \<Rightarrow> 'i instances
     \<Rightarrow> (('e error + nat) \<times> 'e Session \<times> 'i instances) option" where
  "apply_changes_obj successful str from_response session a h =
     (case apply_changes_async_obj str from_response session a h of
        (res, session', h') \<Rightarrow>
          (case res of
             Inl e \<Rightarrow> Some (Inl e, session', h')
           | Inr b \<Rightarrow> wait_obj successful str session' b h'))"

text \<open>
  What a run of the follower from the operation at \<open>a\<close> leaves behind: the datasets as they
  were, the operations as they were followed by the snapshots of the polls, one request
  for each of them and one more for a poll that failed, and as its result the reference it
  was given when no poll was made and the reference to the last snapshot otherwise, in a
  terminal state.
\<close>

definition follow_frame ::
  "'e Session \<Rightarrow> nat \<Rightarrow> 'i instances \<Rightarrow> ('e error + nat) \<times> 'e Session \<times> 'i instances \<Rightarrow> bool" where
  "follow_frame session a h y =
     (case y of (res, session', h') \<Rightarrow>
        dataset_objs h' = dataset_objs h \<and>
        (\<exists>new. operation_objs h' = operation_objs h @ new \<and>
           (case res of
              Inl e \<Rightarrow> length (sent session') = length (sent session) + length new + 1
            | Inr b \<Rightarrow>
                length (sent session') = length (sent session) + length new \<and>
                b < length (operation_objs h') \<and> is_terminal (operation_objs h' ! b) \<and>
                (if new = [] then b = a else b = length (operation_objs h) + length new - 1))))"

section \<open>Concrete collaborators for the examples\<close>

text \<open>
  A transport check that accepts the 2xx statuses, a rendering of URLs, a decoder of the
  reply to the refresh request and a server that answers its \<open>k\<close>-th request with the \<open>k\<close>-th
  document of a script.
\<close>

definition successful_2xx :: "string Response \<Rightarrow> string + string Response" where
  "successful_2xx r =
     (if 200 \<le> status_code r \<and> status_code r < 300 then Inr r else Inl ''HTTPError'')"

definition render :: "string URL \<Rightarrow> string" where
  "render u = instance u @ ''/'' @ path u"

definition from_response_fixed :: "string \<Rightarrow> string Response \<Rightarrow> string error + string Operation" where
  "from_response_fixed inst r =
     (case json r of
        Inl e \<Rightarrow> Inl (External e)
      | Inr data \<Rightarrow> operation_from_json \<lparr>instance = inst, path = ''operations/1''\<rparr> data)"

definition state_doc :: "string \<Rightarrow> pyval" where
  "state_doc st = PyDict [(''state'', PyStr st)]"

definition scripted :: "pyval list \<Rightarrow> request list \<Rightarrow> request \<Rightarrow> string + string Response" where
  "scripted docs hist rq =
     (if length hist < length docs
      then Inr \<lparr>status_code = 200, json = Inr (docs ! length hist)\<rparr>
      else Inl ''connection refused'')"

definition status_only :: "int \<Rightarrow> request list \<Rightarrow> request \<Rightarrow> string + string Response" where
  "status_only code hist rq = Inr \<lparr>status_code = code, json = Inl ''no body''\<rparr>"

text \<open>A server that answers with the documents of a script and then with a bare status.\<close>

definition scripted_then_status ::
  "pyval list \<Rightarrow> int \<Rightarrow> request list \<Rightarrow> request \<Rightarrow> string + string Response" where
  "scripted_then_status docs code hist rq =
     (if length hist < length docs
      then Inr \<lparr>status_code = 200, json = Inr (docs ! length hist)\<rparr>
      else Inr \<lparr>status_code = code, json = Inl ''no body''\<rparr>)"

definition operation_url :: "string URL" where
  "operation_url = \<lparr>instance = ''tamr'', path = ''operations/1''\<rparr>"

definition dataset_url :: "string URL" where
  "dataset_url = \<lparr>instance = ''tamr'', path = ''datasets/7''\<rparr>"

definition all_datasets :: "string \<Rightarrow> string + string \<times> pyval" where
  "all_datasets n = Inr (n, PyNone)"

definition fetch_unified ::
  "MasteringProject \<Rightarrow> (string \<times> pyval, string) Client
     \<Rightarrow> (string + string \<times> pyval) \<times> (string \<times> pyval, string) Client" where
  "fetch_unified self client = (Inr (''ud'', PyNone), client)"

definition rebuild :: "pyval \<Rightarrow> string \<Rightarrow> string + string \<times> pyval" where
  "rebuild resource_json alias = Inr (alias, resource_json)"

text \<open>
  A store with the document \<^verbatim>\<open>{"name": "ds", "keyAttributeNames": [["id"]]}\<close> at address 2,
  the store after one and after two calls of \<open>from_json_st\<close> on it, the datasets the two
  calls return, the store after a later change of the document's inner list, and a dataset
  obtained earlier that refers to that list.
\<close>

definition sample_store :: store where
  "sample_store =
     \<lparr>objs = (\<lambda>a. HList [])
        (0 := HList [VStr ''id''],
         1 := HList [VRef 0],
         2 := HDict [(''name'', VStr ''ds''), (''keyAttributeNames'', VRef 1)]),
      next_free = 3\<rparr>"

definition sample_document :: pyval where
  "sample_document =
     PyDict [(''name'', PyStr ''ds''), (''keyAttributeNames'', PyList [PyList [PyStr ''id'']])]"

definition sample_store_copied :: store where
  "sample_store_copied =
     \<lparr>objs = (objs sample_store)
        (3 := HDict [(''name'', VStr ''ds''), (''keyAttributeNames'', VRef 4)],
         4 := HList [VRef 5],
         5 := HList [VStr ''id'']),
      next_free = 6\<rparr>"

definition sample_dataset :: "(string, val) UnifiedDataset" where
  "sample_dataset =
     \<lparr>url = dataset_url, name = VStr ''ds'', key_attribute_names = [VRef 5], description = VNone\<rparr>"

definition sample_store_mutated :: store where
  "sample_store_mutated = put_obj 0 (HList [VStr ''changed'']) sample_store_copied"

definition sample_store_copied_twice :: store where
  "sample_store_copied_twice =
     \<lparr>objs = (objs sample_store_copied)
        (6 := HDict [(''name'', VStr ''ds''), (''keyAttributeNames'', VRef 7)],
         7 := HList [VRef 8],
         8 := HList [VStr ''id'']),
      next_free = 9\<rparr>"

definition sample_dataset_again :: "(string, val) UnifiedDataset" where
  "sample_dataset_again =
     \<lparr>url = dataset_url, name = VStr ''ds'', key_attribute_names = [VRef 8], description = VNone\<rparr>"

definition earlier_dataset :: "(string, val) UnifiedDataset" where
  "earlier_dataset =
     \<lparr>url = dataset_url, name = VStr ''earlier'', key_attribute_names = [VRef 0],
      description = VNone\<rparr>"

text \<open>
  The instances before the examples' calls: the dataset obtained earlier and an operation
  that is pending.
\<close>

definition sample_instances :: "string instances" where
  "sample_instances =
     \<lparr>dataset_objs = [earlier_dataset],
      operation_objs =
        [\<lparr>Operation.url = operation_url, state = ''PENDING'', Operation.description = PyNone,
          type = PyNone\<rparr>]\<rparr>"

section \<open>Properties of the follower\<close>

lemma operation_from_json_state:
  fixes u :: "'i URL"
  assumes "doc_state d = Some st"
  shows "\<exists>op'. (operation_from_json u d :: 'e error + 'i Operation) = Inr op' \<and>
           state op' = st \<and> Operation.url op' = u"
  using assms
  by (auto simp: doc_state_def operation_from_json_def split: pyval.splits option.splits)

lemma poll_answers:
  assumes "answers successful session (get_request (str (Operation.url op))) d"
  shows "poll successful str session op =
    (operation_from_json (Operation.url op) d,
     session\<lparr>sent := sent session @ [get_request (str (Operation.url op))]\<rparr>)"
  using assms
  by (auto simp: answers_def poll_def session_get_def issue_def split: sum.splits)

lemma poll_session:
  "poll successful str session op = (res, session') \<Longrightarrow>
   session' = session\<lparr>sent := sent session @ [get_request (str (Operation.url op))]\<rparr>"
  by (auto simp: poll_def session_get_def issue_def split: sum.splits if_splits)

lemma wait_terminal: "is_terminal op \<Longrightarrow> wait successful str session op = Some (Inr op, session)"
  by (subst wait.simps) simp

lemma wait_step:
  "\<not> is_terminal op \<Longrightarrow> poll successful str session op = (Inr op', session') \<Longrightarrow>
   wait successful str session op = wait successful str session' op'"
  by (subst wait.simps) simp

lemma wait_error:
  "\<not> is_terminal op \<Longrightarrow> poll successful str session op = (Inl e, session') \<Longrightarrow>
   wait successful str session op = Some (Inl e, session')"
  by (subst wait.simps) simp

text \<open>
  C1. A snapshot whose state is SUCCEEDED, FAILED or CANCELED is returned by the follower
  at once, with the session as it was: no request is issued. When the reply to the refresh
  request of \<open>apply_changes\<close> is decoded into such a snapshot, \<open>apply_changes\<close> returns it
  with the session as the refresh request left it.
\<close>

theorem wait_returns_terminal_snapshot_at_once:
  assumes "state op \<in> {''SUCCEEDED'', ''FAILED'', ''CANCELED''}"
  shows "wait successful str session op = Some (Inr op, session) \<and>
         (apply_changes_async str from_response session0 unified_dataset = (Inr op, session) \<longrightarrow>
          apply_changes successful str from_response session0 unified_dataset =
            Some (Inr op, session))"
proof -
  from assms have "is_terminal op" by (simp add: is_terminal_def terminal_states_def)
  then have "wait successful str session op = Some (Inr op, session)" by (rule wait_terminal)
  then show ?thesis by (simp add: apply_changes_def)
qed

theorem wait_returns_terminal_snapshot_at_once_witness:
  "state \<lparr>Operation.url = operation_url, state = ''FAILED'', Operation.description = PyNone, type = PyNone\<rparr>
     \<in> {''SUCCEEDED'', ''FAILED'', ''CANCELED''} \<and>
   wait successful_2xx render \<lparr>server = scripted [], sent = []\<rparr>
     \<lparr>Operation.url = operation_url, state = ''FAILED'', Operation.description = PyNone, type = PyNone\<rparr> =
   Some (Inr \<lparr>Operation.url = operation_url, state = ''FAILED'', Operation.description = PyNone, type = PyNone\<rparr>,
         \<lparr>server = scripted [], sent = []\<rparr>) \<and>
   apply_changes successful_2xx render from_response_fixed
     \<lparr>server = scripted [state_doc ''FAILED''], sent = []\<rparr>
     \<lparr>url = dataset_url, name = PyStr ''ds'', key_attribute_names = [PyStr ''id''], description = PyNone\<rparr> =
   Some (Inr \<lparr>Operation.url = operation_url, state = ''FAILED'', Operation.description = PyNone, type = PyNone\<rparr>,
         \<lparr>server = scripted [state_doc ''FAILED''],
          sent = [post_request (render dataset_url @ '':refresh'') refresh_headers]\<rparr>)"
proof -
  let ?op = "\<lparr>Operation.url = operation_url, state = ''FAILED'', Operation.description = PyNone, type = PyNone\<rparr>"
  let ?ds = "\<lparr>url = dataset_url, name = PyStr ''ds'', key_attribute_names = [PyStr ''id''], description = PyNone\<rparr>"
  let ?s0 = "\<lparr>server = scripted [state_doc ''FAILED''], sent = []\<rparr>"
  let ?s1 = "\<lparr>server = scripted [state_doc ''FAILED''],
          sent = [post_request (render dataset_url @ '':refresh'') refresh_headers]\<rparr>"
  have h: "state ?op \<in> {''SUCCEEDED'', ''FAILED'', ''CANCELED''}" by simp
  have a: "apply_changes_async render from_response_fixed ?s0 ?ds = (Inr ?op, ?s1)"
    by (simp add: apply_changes_async_def session_post_def issue_def scripted_def
        from_response_fixed_def operation_from_json_def state_doc_def operation_url_def dataset_url_def)
  from wait_returns_terminal_snapshot_at_once [OF h, of successful_2xx render "\<lparr>server = scripted [], sent = []\<rparr>", THEN conjunct1]
  have 1: "wait successful_2xx render \<lparr>server = scripted [], sent = []\<rparr> ?op = Some (Inr ?op, \<lparr>server = scripted [], sent = []\<rparr>)"
    by simp
  from wait_returns_terminal_snapshot_at_once [OF h, of successful_2xx render ?s1 from_response_fixed ?s0 ?ds, THEN conjunct2] a
  have 2: "apply_changes successful_2xx render from_response_fixed ?s0 ?ds = Some (Inr ?op, ?s1)"
    by simp
  from h 1 2 show ?thesis by simp
qed


lemma wait_run:
  fixes ds :: "pyval list" and successful :: "'e Response \<Rightarrow> 'e + 'e Response"
    and op :: "'i Operation"
  assumes "\<not> is_terminal op"
    and "\<forall>k < length ds. \<exists>st. doc_state (ds ! k) = Some st \<and> st \<notin> set terminal_states"
    and "doc_state dT = Some stT" and "stT \<in> set terminal_states"
    and "\<forall>k \<le> length ds.
           answers successful
             (session\<lparr>sent := sent session @ replicate k (get_request (str (Operation.url op)))\<rparr>)
             (get_request (str (Operation.url op))) ((ds @ [dT]) ! k)"
  shows "\<exists>opT. (operation_from_json (Operation.url op) dT :: 'e error + 'i Operation) = Inr opT \<and>
           state opT = stT \<and>
           wait successful str session op =
             Some (Inr opT, session\<lparr>sent := sent session @
                      replicate (Suc (length ds)) (get_request (str (Operation.url op)))\<rparr>)"
  using assms
proof (induction ds arbitrary: session op)
  case Nil
  let ?rq = "get_request (str (Operation.url op))"
  from Nil.prems(5) have a: "answers successful session ?rq dT" by simp
  from Nil.prems(3)
  obtain opT where o: "(operation_from_json (Operation.url op) dT :: 'e error + 'i Operation) = Inr opT"
    "state opT = stT"
    using operation_from_json_state by blast
  from o(2) Nil.prems(4) have t: "is_terminal opT" by (simp add: is_terminal_def)
  have "wait successful str session op =
      wait successful str (session\<lparr>sent := sent session @ [?rq]\<rparr>) opT"
    using Nil.prems(1) poll_answers [where str = str and op = op, OF a] o(1)
    by (simp add: wait_step)
  also have "\<dots> = Some (Inr opT, session\<lparr>sent := sent session @ [?rq]\<rparr>)"
    using t by (rule wait_terminal)
  finally show ?case using o by simp
next
  case (Cons d ds)
  let ?rq = "get_request (str (Operation.url op))"
  let ?s1 = "session\<lparr>sent := sent session @ [?rq]\<rparr>"
  from Cons.prems(5)
  have "answers successful (session\<lparr>sent := sent session @ replicate 0 ?rq\<rparr>) ?rq
          (((d # ds) @ [dT]) ! 0)"
    by blast
  then have a: "answers successful session ?rq d" by simp
  from Cons.prems(2) obtain st where st: "doc_state d = Some st" "st \<notin> set terminal_states"
    by fastforce
  from st(1)
  obtain op1 where o: "(operation_from_json (Operation.url op) d :: 'e error + 'i Operation) = Inr op1"
    "state op1 = st" "Operation.url op1 = Operation.url op"
    using operation_from_json_state by blast
  from o(2) st(2) have nt: "\<not> is_terminal op1" by (simp add: is_terminal_def)
  have step: "wait successful str session op = wait successful str ?s1 op1"
    using Cons.prems(1) poll_answers [where str = str and op = op, OF a] o(1)
    by (simp add: wait_step)
  have p2: "\<forall>k < length ds. \<exists>st. doc_state (ds ! k) = Some st \<and> st \<notin> set terminal_states"
    using Cons.prems(2) by fastforce
  have p5: "\<forall>k \<le> length ds.
      answers successful
        (?s1\<lparr>sent := sent ?s1 @ replicate k (get_request (str (Operation.url op1)))\<rparr>)
        (get_request (str (Operation.url op1))) ((ds @ [dT]) ! k)"
  proof (intro allI impI)
    fix k assume "k \<le> length ds"
    then have "Suc k \<le> length (d # ds)" by simp
    with Cons.prems(5)
    have "answers successful (session\<lparr>sent := sent session @ replicate (Suc k) ?rq\<rparr>) ?rq
            (((d # ds) @ [dT]) ! Suc k)"
      by blast
    then show "answers successful
        (?s1\<lparr>sent := sent ?s1 @ replicate k (get_request (str (Operation.url op1)))\<rparr>)
        (get_request (str (Operation.url op1))) ((ds @ [dT]) ! k)"
      by (simp add: o(3))
  qed
  from Cons.IH [OF nt p2 Cons.prems(3) Cons.prems(4) p5]
  obtain opT where r: "(operation_from_json (Operation.url op1) dT :: 'e error + 'i Operation) = Inr opT"
    "state opT = stT"
    "wait successful str ?s1 op1 =
       Some (Inr opT, ?s1\<lparr>sent := sent ?s1 @
                replicate (Suc (length ds)) (get_request (str (Operation.url op1)))\<rparr>)"
    by blast
  show ?case using r step by (simp add: o(3))
qed

text \<open>
  C2. The initial snapshot is not terminal; the server answers the polls of the operation's
  URL with the documents \<open>ds\<close>, whose states are not terminal, and then with the document
  \<open>dT\<close>, whose state is terminal. Then the follower returns the snapshot decoded from \<open>dT\<close>
  after exactly \<open>length ds + 1\<close> requests, each of them the GET of the operation's URL; with
  \<open>ds\<close> empty that is one poll.
\<close>

theorem wait_polls_until_terminal:
  fixes ds :: "pyval list" and successful :: "'e Response \<Rightarrow> 'e + 'e Response"
    and op :: "'i Operation"
  assumes "state op \<notin> {''SUCCEEDED'', ''FAILED'', ''CANCELED''}"
    and "\<forall>k < length ds. \<exists>st. doc_state (ds ! k) = Some st \<and>
           st \<notin> {''SUCCEEDED'', ''FAILED'', ''CANCELED''}"
    and "doc_state dT = Some stT" and "stT \<in> {''SUCCEEDED'', ''FAILED'', ''CANCELED''}"
    and "\<forall>k \<le> length ds.
           answers successful
             (session\<lparr>sent := sent session @ replicate k (get_request (str (Operation.url op)))\<rparr>)
             (get_request (str (Operation.url op))) ((ds @ [dT]) ! k)"
  shows "\<exists>opT. (operation_from_json (Operation.url op) dT :: 'e error + 'i Operation) = Inr opT \<and>
           state opT = stT \<and>
           wait successful str session op =
             Some (Inr opT, session\<lparr>sent := sent session @
                      replicate (Suc (length ds)) (get_request (str (Operation.url op)))\<rparr>)"
proof (rule wait_run)
  show "\<not> is_terminal op" using assms(1) by (simp add: is_terminal_def terminal_states_def)
  show "\<forall>k < length ds. \<exists>st. doc_state (ds ! k) = Some st \<and> st \<notin> set terminal_states"
    using assms(2) by (simp add: terminal_states_def)
  show "doc_state dT = Some stT" by (rule assms(3))
  show "stT \<in> set terminal_states" using assms(4) by (simp add: terminal_states_def)
  show "\<forall>k \<le> length ds.
           answers successful
             (session\<lparr>sent := sent session @ replicate k (get_request (str (Operation.url op)))\<rparr>)
             (get_request (str (Operation.url op))) ((ds @ [dT]) ! k)"
    by (rule assms(5))
qed

theorem wait_polls_until_terminal_witness:
  "wait successful_2xx render
     \<lparr>server = scripted [state_doc ''RUNNING'', state_doc ''SUCCEEDED''], sent = []\<rparr>
     \<lparr>Operation.url = operation_url, state = ''PENDING'', Operation.description = PyNone, type = PyNone\<rparr> =
   Some (Inr \<lparr>Operation.url = operation_url, state = ''SUCCEEDED'', Operation.description = PyNone,
              type = PyNone\<rparr>,
         \<lparr>server = scripted [state_doc ''RUNNING'', state_doc ''SUCCEEDED''],
          sent = [get_request (render operation_url), get_request (render operation_url)]\<rparr>)"
proof -
  let ?op = "\<lparr>Operation.url = operation_url, state = ''PENDING'', Operation.description = PyNone,
               type = PyNone\<rparr>"
  let ?s = "\<lparr>server = scripted [state_doc ''RUNNING'', state_doc ''SUCCEEDED''], sent = []\<rparr>"
  have 1: "state ?op \<notin> {''SUCCEEDED'', ''FAILED'', ''CANCELED''}" by simp
  have 2: "\<forall>k < length [state_doc ''RUNNING'']. \<exists>st. doc_state ([state_doc ''RUNNING''] ! k) = Some st \<and>
           st \<notin> {''SUCCEEDED'', ''FAILED'', ''CANCELED''}"
    by (simp add: doc_state_def state_doc_def)
  have 3: "doc_state (state_doc ''SUCCEEDED'') = Some ''SUCCEEDED''"
    by (simp add: doc_state_def state_doc_def)
  have 4: "''SUCCEEDED'' \<in> {''SUCCEEDED'', ''FAILED'', ''CANCELED''}" by simp
  have 5: "\<forall>k \<le> length [state_doc ''RUNNING''].
           answers successful_2xx
             (?s\<lparr>sent := sent ?s @ replicate k (get_request (render (Operation.url ?op)))\<rparr>)
             (get_request (render (Operation.url ?op)))
             (([state_doc ''RUNNING''] @ [state_doc ''SUCCEEDED'']) ! k)"
    by (auto simp: le_Suc_eq answers_def scripted_def successful_2xx_def)
  from wait_polls_until_terminal [where str = render, OF 1 2 3 4 5]
  show ?thesis
    by (simp add: operation_from_json_def state_doc_def)
qed


lemma wait_returns:
  fixes successful :: "'e Response \<Rightarrow> 'e + 'e Response" and op :: "'i Operation"
  assumes "wait successful str session op = Some y"
  shows "(\<exists>gets. sent (snd y) = sent session @ gets \<and> (\<forall>g \<in> set gets. verb g = GET)) \<and>
         server (snd y) = server session \<and>
         (\<forall>op'. fst y = Inr op' \<longrightarrow> is_terminal op')"
proof (rule wait.raw_induct [where P = "\<lambda>successful str session op y.
         (\<exists>gets. sent (snd y) = sent session @ gets \<and> (\<forall>g \<in> set gets. verb g = GET)) \<and>
         server (snd y) = server session \<and>
         (\<forall>op'. fst y = Inr op' \<longrightarrow> is_terminal op')", OF _ assms])
  fix f :: "('e Response \<Rightarrow> 'e + 'e Response) \<Rightarrow> ('i URL \<Rightarrow> string) \<Rightarrow> 'e Session \<Rightarrow> 'i Operation
     \<Rightarrow> (('e error + 'i Operation) \<times> 'e Session) option"
    and successful str session op y
  assume IH: "\<And>successful str session op y. f successful str session op = Some y \<Longrightarrow>
         (\<exists>gets. sent (snd y) = sent session @ gets \<and> (\<forall>g \<in> set gets. verb g = GET)) \<and>
         server (snd y) = server session \<and>
         (\<forall>op'. fst y = Inr op' \<longrightarrow> is_terminal op')"
    and eq: "(if is_terminal op then Some (Inr op, session)
      else (case poll successful str session op of
              (res, session') \<Rightarrow>
                (case res of
                   Inl e \<Rightarrow> Some (Inl e, session')
                 | Inr op' \<Rightarrow> f successful str session' op'))) = Some y"
  show "(\<exists>gets. sent (snd y) = sent session @ gets \<and> (\<forall>g \<in> set gets. verb g = GET)) \<and>
         server (snd y) = server session \<and>
         (\<forall>op'. fst y = Inr op' \<longrightarrow> is_terminal op')"
  proof (cases "is_terminal op")
    case True
    with eq show ?thesis by auto
  next
    case False
    obtain res session' where p: "poll successful str session op = (res, session')"
      by (cases "poll successful str session op")
    from poll_session [OF p]
    have s': "session' = session\<lparr>sent := sent session @ [get_request (str (Operation.url op))]\<rparr>" .
    show ?thesis
    proof (cases res)
      case (Inl e)
      with eq False p have "y = (Inl e, session')" by simp
      then show ?thesis using s' by (auto simp: get_request_def)
    next
      case (Inr op')
      with eq False p have "f successful str session' op' = Some y" by simp
      from IH [OF this] show ?thesis using s' by (auto simp: get_request_def)
    qed
  qed
qed

section \<open>Properties of the copy of a value\<close>

lemma fold_max_le: "fold max ns (a::nat) \<le> n \<longleftrightarrow> a \<le> n \<and> (\<forall>m \<in> set ns. m \<le> n)"
  by (induction ns arbitrary: a) auto

lemma copy_each_all:
  assumes "\<forall>x \<in> set xs. cp x = (if P x then Inr x else Inl E)"
  shows "copy_each cp xs = (if \<forall>x \<in> set xs. P x then Inr xs else Inl E)"
  using assms by (induction xs) auto

lemma frames_list:
  "3 \<le> room \<Longrightarrow>
   frames_needed (PyList xs) \<le> room \<longleftrightarrow> (\<forall>x \<in> set xs. frames_needed x \<le> room - 2)"
  by (auto simp: fold_max_le)

lemma frames_dict:
  "3 \<le> room \<Longrightarrow>
   frames_needed (PyDict kvs) \<le> room \<longleftrightarrow> (\<forall>x \<in> set (map snd kvs). frames_needed x \<le> room - 2)"
  by (auto simp: fold_max_le)

text \<open>
  The copy of a value is made exactly when the stack has room for the frames it needs, and
  is then the value.
\<close>

lemma deepcopy_frames:
  "(deepcopy room x :: 'e error + pyval) =
     (if frames_needed x \<le> room then Inr x else Inl RecursionError)"
proof (induction room arbitrary: x rule: less_induct)
  case (less room)
  show ?case
  proof (cases x)
    case (PyList xs)
    show ?thesis
    proof (cases "room < 3")
      case True
      then show ?thesis by (simp add: PyList fold_max_le)
    next
      case False
      then have "\<forall>y \<in> set xs. (deepcopy (room - 2) y :: 'e error + pyval) =
          (if frames_needed y \<le> room - 2 then Inr y else Inl RecursionError)"
        using less by simp
      from copy_each_all [OF this] False frames_list [of room xs] show ?thesis
        by (simp add: PyList del: frames_needed.simps)
    qed
  next
    case (PyDict kvs)
    show ?thesis
    proof (cases "room < 3")
      case True
      then show ?thesis by (simp add: PyDict fold_max_le)
    next
      case False
      then have "\<forall>y \<in> set (map snd kvs). (deepcopy (room - 2) y :: 'e error + pyval) =
          (if frames_needed y \<le> room - 2 then Inr y else Inl RecursionError)"
        using less by simp
      from copy_each_all [OF this] False frames_dict [of room kvs] show ?thesis
        by (simp add: PyDict zip_map_fst_snd del: frames_needed.simps)
    qed
  qed auto
qed

lemma from_json_eq:
  "(from_json room u data :: 'e error + ('i, pyval) UnifiedDataset) =
     (if frames_needed data \<le> room then construct_value u data else Inl RecursionError)"
  by (simp add: from_json_def construct_value_def deepcopy_frames)

lemma construct_value_dict:
  "(construct_value u (PyDict kvs) :: 'e error + ('i, pyval) UnifiedDataset) =
     (case map_of kvs ''name'' of
        None \<Rightarrow> Inl (KeyError ''name'')
      | Some n \<Rightarrow>
          (case map_of kvs ''keyAttributeNames'' of
             None \<Rightarrow> Inl (KeyError ''keyAttributeNames'')
           | Some k \<Rightarrow>
               (case tuple k of
                  Inl e \<Rightarrow> Inl e
                | Inr ks \<Rightarrow>
                    Inr \<lparr>url = u, name = n, key_attribute_names = ks,
                         description = (case map_of kvs ''description'' of None \<Rightarrow> PyNone | Some d \<Rightarrow> d)\<rparr>)))"
  by (simp add: construct_value_def split: option.splits sum.splits)

lemma construct_value_not_dict:
  "\<forall>kvs. data \<noteq> PyDict kvs \<Longrightarrow>
   (construct_value u data :: 'e error + ('i, pyval) UnifiedDataset) = Inl TypeError"
  by (cases data) (simp_all add: construct_value_def)

section \<open>Properties of the accessors of \<^verbatim>\<open>unified.py\<close>\<close>

lemma getitem_not_NotFound: "(getitem x k :: 'e error + pyval) \<noteq> Inl (NotFound m)"
  by (cases x) (auto split: option.splits)

lemma dict_get_not_NotFound: "(dict_get x k :: 'e error + pyval) \<noteq> Inl (NotFound m)"
  by (cases x) auto

lemma tuple_not_NotFound: "(tuple x :: 'e error + pyval list) \<noteq> Inl (NotFound m)"
  by (cases x) auto

lemma from_json_not_NotFound:
  "(from_json room u data :: 'e error + ('i, pyval) UnifiedDataset) \<noteq> Inl (NotFound m)"
  using getitem_not_NotFound [where 'e = 'e] dict_get_not_NotFound [where 'e = 'e]
    tuple_not_NotFound [where 'e = 'e]
  by (auto simp: from_json_eq construct_value_def split: sum.splits)

lemma from_url_connection_error:
  "server session (sent session) (get_request (str u)) = Inl e \<Longrightarrow>
   from_url successful str room session u =
     (Inl (External e), session\<lparr>sent := sent session @ [get_request (str u)]\<rparr>)"
  by (simp add: from_url_def session_get_def issue_def)

lemma from_url_404:
  "server session (sent session) (get_request (str u)) = Inr r \<Longrightarrow> status_code r = 404 \<Longrightarrow>
   from_url successful str room session u =
     (Inl (NotFound (str u)), session\<lparr>sent := sent session @ [get_request (str u)]\<rparr>)"
  by (simp add: from_url_def session_get_def issue_def)

lemma from_url_other:
  "server session (sent session) (get_request (str u)) = Inr r \<Longrightarrow> status_code r \<noteq> 404 \<Longrightarrow>
   from_url successful str room session u =
     (case successful r of
        Inl e \<Rightarrow> Inl (External e)
      | Inr r' \<Rightarrow> (case json r' of Inl e \<Rightarrow> Inl (External e) | Inr data \<Rightarrow> from_json room u data),
      session\<lparr>sent := sent session @ [get_request (str u)]\<rparr>)"
  by (simp add: from_url_def session_get_def issue_def split: sum.splits)

text \<open>
  C4. \<open>_from_url\<close> raises \<open>NotFound\<close> if and only if the reply to its GET is a response with
  status 404; on such a reply it raises \<open>NotFound\<close> of the rendered URL after that one
  request, and no dataset is returned. \<open>from_project\<close> is \<open>_from_url\<close> at the URL made of
  the instance and of the project's path followed by \<^verbatim>\<open>/unifiedDataset\<close>, so the same holds
  for it.
\<close>

theorem from_url_not_found_iff_404:
  fixes successful :: "'e Response \<Rightarrow> 'e + 'e Response" and u :: "'i URL"
  shows "((\<exists>m. fst (from_url successful str room session u) = Inl (NotFound m)) \<longleftrightarrow>
            (\<exists>r. server session (sent session) (get_request (str u)) = Inr r \<and> status_code r = 404)) \<and>
         ((\<exists>r. server session (sent session) (get_request (str u)) = Inr r \<and> status_code r = 404) \<longrightarrow>
            from_url successful str room session u =
              (Inl (NotFound (str u)), session\<lparr>sent := sent session @ [get_request (str u)]\<rparr>)) \<and>
         from_project successful str room session inst project =
            from_url successful str room session
              \<lparr>instance = inst, path = path (Project.url project) @ ''/unifiedDataset''\<rparr>"
proof (intro conjI)
  show "(\<exists>m. fst (from_url successful str room session u) = Inl (NotFound m)) \<longleftrightarrow>
            (\<exists>r. server session (sent session) (get_request (str u)) = Inr r \<and> status_code r = 404)"
  proof (cases "server session (sent session) (get_request (str u))")
    case (Inl e)
    then show ?thesis by (simp add: from_url_connection_error)
  next
    case (Inr r)
    show ?thesis
    proof (cases "status_code r = 404")
      case True
      with Inr show ?thesis by (simp add: from_url_404)
    next
      case False
      with Inr show ?thesis
        by (simp add: from_url_other from_json_not_NotFound split: sum.splits)
    qed
  qed
  show "(\<exists>r. server session (sent session) (get_request (str u)) = Inr r \<and> status_code r = 404) \<longrightarrow>
            from_url successful str room session u =
              (Inl (NotFound (str u)), session\<lparr>sent := sent session @ [get_request (str u)]\<rparr>)"
    by (auto simp: from_url_404)
  show "from_project successful str room session inst project =
            from_url successful str room session
              \<lparr>instance = inst, path = path (Project.url project) @ ''/unifiedDataset''\<rparr>"
    by (simp add: from_project_def)
qed

theorem from_url_not_found_iff_404_witness:
  "from_project successful_2xx render 1000 \<lparr>server = status_only 404, sent = []\<rparr> ''tamr''
     \<lparr>Project.url = \<lparr>instance = ''tamr'', path = ''projects/1''\<rparr>\<rparr> =
   (Inl (NotFound ''tamr/projects/1/unifiedDataset''),
    \<lparr>server = status_only 404, sent = [get_request ''tamr/projects/1/unifiedDataset'']\<rparr>) \<and>
   (\<forall>m. fst (from_url successful_2xx render 1000 \<lparr>server = status_only 500, sent = []\<rparr> dataset_url)
     \<noteq> Inl (NotFound m))"
proof -
  let ?u = "\<lparr>instance = ''tamr'', path = ''projects/1'' @ ''/unifiedDataset''\<rparr>"
  let ?p = "\<lparr>Project.url = \<lparr>instance = ''tamr'', path = ''projects/1''\<rparr>\<rparr>"
  let ?s = "\<lparr>server = status_only 404, sent = []\<rparr>"
  let ?t = "\<lparr>server = status_only 500, sent = []\<rparr>"
  have h: "\<exists>r. server ?s (sent ?s) (get_request (render ?u)) = Inr r \<and> status_code r = 404"
    by (simp add: status_only_def)
  have n: "\<not> (\<exists>r. server ?t (sent ?t) (get_request (render dataset_url)) = Inr r \<and> status_code r = 404)"
    by (simp add: status_only_def)
  from from_url_not_found_iff_404
         [where successful = successful_2xx and str = render and room = 1000 and session = ?s
            and u = ?u and inst = "''tamr''" and project = ?p] h
  have 1: "from_project successful_2xx render 1000 ?s ''tamr'' ?p =
      (Inl (NotFound (render ?u)), ?s\<lparr>sent := sent ?s @ [get_request (render ?u)]\<rparr>)"
    by simp
  from from_url_not_found_iff_404
         [where successful = successful_2xx and str = render and room = 1000 and session = ?t
            and u = dataset_url and inst = "''tamr''" and project = ?p] n
  have 2: "\<not> (\<exists>m. fst (from_url successful_2xx render 1000 ?t dataset_url) = Inl (NotFound m))"
    by blast
  from 1 2 show ?thesis by (simp add: render_def)
qed


lemma poll_rejected:
  "server session (sent session) (get_request (str (Operation.url op))) = Inr r \<Longrightarrow>
   status_code r \<noteq> 404 \<Longrightarrow> successful r = Inl e \<Longrightarrow>
   poll successful str session op =
     (Inl (External e), session\<lparr>sent := sent session @ [get_request (str (Operation.url op))]\<rparr>)"
  by (simp add: poll_def session_get_def issue_def)

lemma wait_run_rejected:
  fixes ds :: "pyval list" and successful :: "'e Response \<Rightarrow> 'e + 'e Response"
    and op :: "'i Operation"
  assumes "\<not> is_terminal op"
    and "\<forall>k < length ds. \<exists>st. doc_state (ds ! k) = Some st \<and> st \<notin> set terminal_states"
    and "\<forall>k < length ds.
           answers successful
             (session\<lparr>sent := sent session @ replicate k (get_request (str (Operation.url op)))\<rparr>)
             (get_request (str (Operation.url op))) (ds ! k)"
    and "server session
           (sent session @ replicate (length ds) (get_request (str (Operation.url op))))
           (get_request (str (Operation.url op))) = Inr r"
    and "status_code r \<noteq> 404" and "successful r = Inl e"
  shows "wait successful str session op =
           Some (Inl (External e),
                 session\<lparr>sent := sent session @
                   replicate (Suc (length ds)) (get_request (str (Operation.url op)))\<rparr>)"
  using assms(1-4)
proof (induction ds arbitrary: session op)
  case Nil
  from Nil.prems(4)
  have "server session (sent session) (get_request (str (Operation.url op))) = Inr r" by simp
  from poll_rejected [where successful = successful and str = str and op = op and session = session,
         OF this assms(5) assms(6)] Nil.prems(1)
  show ?case by (simp add: wait_error)
next
  case (Cons d ds)
  let ?rq = "get_request (str (Operation.url op))"
  let ?s1 = "session\<lparr>sent := sent session @ [?rq]\<rparr>"
  from Cons.prems(3)
  have "answers successful (session\<lparr>sent := sent session @ replicate 0 ?rq\<rparr>) ?rq ((d # ds) ! 0)"
    by blast
  then have a: "answers successful session ?rq d" by simp
  from Cons.prems(2) obtain st where st: "doc_state d = Some st" "st \<notin> set terminal_states"
    by fastforce
  from st(1)
  obtain op1 where o: "(operation_from_json (Operation.url op) d :: 'e error + 'i Operation) = Inr op1"
    "state op1 = st" "Operation.url op1 = Operation.url op"
    using operation_from_json_state by blast
  from o(2) st(2) have nt: "\<not> is_terminal op1" by (simp add: is_terminal_def)
  have step: "wait successful str session op = wait successful str ?s1 op1"
    using Cons.prems(1) poll_answers [where str = str and op = op, OF a] o(1)
    by (simp add: wait_step)
  have p2: "\<forall>k < length ds. \<exists>st. doc_state (ds ! k) = Some st \<and> st \<notin> set terminal_states"
    using Cons.prems(2) by fastforce
  have p3: "\<forall>k < length ds.
      answers successful
        (?s1\<lparr>sent := sent ?s1 @ replicate k (get_request (str (Operation.url op1)))\<rparr>)
        (get_request (str (Operation.url op1))) (ds ! k)"
  proof (intro allI impI)
    fix k assume "k < length ds"
    then have "Suc k < length (d # ds)" by simp
    with Cons.prems(3)
    have "answers successful (session\<lparr>sent := sent session @ replicate (Suc k) ?rq\<rparr>) ?rq
            ((d # ds) ! Suc k)"
      by blast
    then show "answers successful
        (?s1\<lparr>sent := sent ?s1 @ replicate k (get_request (str (Operation.url op1)))\<rparr>)
        (get_request (str (Operation.url op1))) (ds ! k)"
      by (simp add: o(3))
  qed
  have p4: "server ?s1
           (sent ?s1 @ replicate (length ds) (get_request (str (Operation.url op1))))
           (get_request (str (Operation.url op1))) = Inr r"
    using Cons.prems(4) by (simp add: o(3))
  from Cons.IH [OF nt p2 p3 p4] step show ?case by (simp add: o(3))
qed

text \<open>
  C5. A response whose status is not 404 and which the transport layer's check rejects with
  the error \<open>e\<close>. When it is the reply to the GET of \<open>_from_url\<close>, \<open>_from_url\<close> returns that
  same error after that one request. When the follower, started on a snapshot that is not
  terminal, has been answered with the documents \<open>ds\<close>, whose states are not terminal, and
  receives it as the reply to its next poll, the follower returns that same error, and the
  session has grown by exactly \<open>length ds + 1\<close> GETs of the operation's URL: the rejected
  request is the last one, on the first poll (\<open>ds\<close> empty) and on every later one. Nothing is
  sent again.
\<close>

theorem transport_error_propagates_unchanged:
  fixes successful :: "'e Response \<Rightarrow> 'e + 'e Response" and ds :: "pyval list"
  assumes "status_code r \<noteq> 404" and "successful r = Inl e"
  shows "(server session (sent session) (get_request (str u)) = Inr r \<longrightarrow>
            from_url successful str room session u =
              (Inl (External e), session\<lparr>sent := sent session @ [get_request (str u)]\<rparr>)) \<and>
         (\<not> is_terminal op \<and>
          (\<forall>k < length ds.
             (\<exists>st. doc_state (ds ! k) = Some st \<and> st \<notin> {''SUCCEEDED'', ''FAILED'', ''CANCELED''}) \<and>
             answers successful
               (session\<lparr>sent := sent session @ replicate k (get_request (str (Operation.url op)))\<rparr>)
               (get_request (str (Operation.url op))) (ds ! k)) \<and>
          server session
            (sent session @ replicate (length ds) (get_request (str (Operation.url op))))
            (get_request (str (Operation.url op))) = Inr r \<longrightarrow>
            wait successful str session op =
              Some (Inl (External e),
                    session\<lparr>sent := sent session @
                      replicate (Suc (length ds)) (get_request (str (Operation.url op)))\<rparr>))"
proof (intro conjI impI)
  assume "server session (sent session) (get_request (str u)) = Inr r"
  with assms show "from_url successful str room session u =
      (Inl (External e), session\<lparr>sent := sent session @ [get_request (str u)]\<rparr>)"
    by (simp add: from_url_other)
next
  let ?rq = "get_request (str (Operation.url op))"
  assume a: "\<not> is_terminal op \<and>
          (\<forall>k < length ds.
             (\<exists>st. doc_state (ds ! k) = Some st \<and> st \<notin> {''SUCCEEDED'', ''FAILED'', ''CANCELED''}) \<and>
             answers successful (session\<lparr>sent := sent session @ replicate k ?rq\<rparr>) ?rq (ds ! k)) \<and>
          server session (sent session @ replicate (length ds) ?rq) ?rq = Inr r"
  show "wait successful str session op =
      Some (Inl (External e), session\<lparr>sent := sent session @ replicate (Suc (length ds)) ?rq\<rparr>)"
  proof (rule wait_run_rejected
            [where successful = successful and str = str and session = session and op = op
               and ds = ds, OF _ _ _ _ assms])
    show "\<not> is_terminal op" using a by blast
    show "\<forall>k < length ds. \<exists>st. doc_state (ds ! k) = Some st \<and> st \<notin> set terminal_states"
      using a by (simp add: terminal_states_def)
    show "\<forall>k < length ds.
           answers successful (session\<lparr>sent := sent session @ replicate k ?rq\<rparr>) ?rq (ds ! k)"
      using a by blast
    show "server session (sent session @ replicate (length ds) ?rq) ?rq = Inr r"
      using a by blast
  qed
qed

theorem transport_error_propagates_unchanged_witness:
  "from_url successful_2xx render 1000 \<lparr>server = status_only 500, sent = []\<rparr> dataset_url =
     (Inl (External ''HTTPError''),
      \<lparr>server = status_only 500, sent = [get_request (render dataset_url)]\<rparr>) \<and>
   wait successful_2xx render \<lparr>server = status_only 500, sent = []\<rparr>
     \<lparr>Operation.url = operation_url, state = ''PENDING'', Operation.description = PyNone, type = PyNone\<rparr> =
     Some (Inl (External ''HTTPError''),
           \<lparr>server = status_only 500, sent = [get_request (render operation_url)]\<rparr>) \<and>
   wait successful_2xx render
     \<lparr>server = scripted_then_status [state_doc ''RUNNING'', state_doc ''RUNNING''] 500, sent = []\<rparr>
     \<lparr>Operation.url = operation_url, state = ''PENDING'', Operation.description = PyNone, type = PyNone\<rparr> =
     Some (Inl (External ''HTTPError''),
           \<lparr>server = scripted_then_status [state_doc ''RUNNING'', state_doc ''RUNNING''] 500,
            sent = [get_request (render operation_url), get_request (render operation_url),
                    get_request (render operation_url)]\<rparr>)"
proof -
  let ?r = "\<lparr>status_code = 500, json = Inl ''no body''\<rparr> :: string Response"
  let ?s = "\<lparr>server = status_only 500, sent = []\<rparr>"
  let ?docs = "[state_doc ''RUNNING'', state_doc ''RUNNING'']"
  let ?t = "\<lparr>server = scripted_then_status ?docs 500, sent = []\<rparr>"
  let ?op = "\<lparr>Operation.url = operation_url, state = ''PENDING'', Operation.description = PyNone,
               type = PyNone\<rparr>"
  let ?rq = "get_request (render (Operation.url ?op))"
  have 1: "status_code ?r \<noteq> 404" by simp
  have 2: "successful_2xx ?r = Inl ''HTTPError''" by (simp add: successful_2xx_def)
  have 3: "server ?s (sent ?s) (get_request (render dataset_url)) = Inr ?r"
    by (simp add: status_only_def)
  have 4: "\<not> is_terminal ?op \<and>
      (\<forall>k < length ([] :: pyval list).
         (\<exists>st. doc_state ([] ! k) = Some st \<and> st \<notin> {''SUCCEEDED'', ''FAILED'', ''CANCELED''}) \<and>
         answers successful_2xx (?s\<lparr>sent := sent ?s @ replicate k ?rq\<rparr>) ?rq ([] ! k)) \<and>
      server ?s (sent ?s @ replicate (length ([] :: pyval list)) ?rq) ?rq = Inr ?r"
    by (simp add: status_only_def is_terminal_def terminal_states_def)
  have 5: "\<not> is_terminal ?op \<and>
      (\<forall>k < length ?docs.
         (\<exists>st. doc_state (?docs ! k) = Some st \<and> st \<notin> {''SUCCEEDED'', ''FAILED'', ''CANCELED''}) \<and>
         answers successful_2xx (?t\<lparr>sent := sent ?t @ replicate k ?rq\<rparr>) ?rq (?docs ! k)) \<and>
      server ?t (sent ?t @ replicate (length ?docs) ?rq) ?rq = Inr ?r"
    by (auto simp: less_Suc_eq scripted_then_status_def is_terminal_def terminal_states_def
        doc_state_def state_doc_def answers_def successful_2xx_def)
  note t = transport_error_propagates_unchanged
         [where successful = successful_2xx and r = ?r and e = "''HTTPError''"
            and str = render and room = 1000 and u = dataset_url and op = ?op, OF 1 2]
  from t [where session = ?s and ds = "[]", THEN conjunct1] 3
  have a: "from_url successful_2xx render 1000 ?s dataset_url =
     (Inl (External ''HTTPError''), ?s\<lparr>sent := sent ?s @ [get_request (render dataset_url)]\<rparr>)"
    by blast
  from t [where session = ?s and ds = "[]", THEN conjunct2] 4
  have b: "wait successful_2xx render ?s ?op =
     Some (Inl (External ''HTTPError''),
           ?s\<lparr>sent := sent ?s @ replicate (Suc (length ([] :: pyval list))) ?rq\<rparr>)"
    by blast
  from t [where session = ?t and ds = ?docs, THEN conjunct2] 5
  have c: "wait successful_2xx render ?t ?op =
     Some (Inl (External ''HTTPError''), ?t\<lparr>sent := sent ?t @ replicate (Suc (length ?docs)) ?rq\<rparr>)"
    by blast
  from a b c show ?thesis by (simp add: eval_nat_numeral)
qed

lemma apply_changes_async_session:
  "apply_changes_async str from_response session ds = (res, session') \<Longrightarrow>
   session' = session\<lparr>sent := sent session @
                [post_request (str (url ds) @ '':refresh'') refresh_headers]\<rparr>"
  by (auto simp: apply_changes_async_def session_post_def issue_def split: sum.splits)

text \<open>
  C6. \<open>apply_changes\<close> sends one POST, to the rendered URL of the dataset followed by
  \<^verbatim>\<open>:refresh\<close>; an error of the connection or of the decoding of the reply is returned;
  otherwise the result is that of the follower on the decoded snapshot. Whenever it returns,
  the session has grown by that POST followed by GET requests only, and a snapshot it returns
  is in a terminal state.
\<close>

theorem apply_changes_posts_refresh_then_waits:
  fixes successful :: "'e Response \<Rightarrow> 'e + 'e Response"
    and from_response :: "'i \<Rightarrow> 'e Response \<Rightarrow> 'e error + 'i Operation"
    and unified_dataset :: "('i, 'v) UnifiedDataset"
  shows "apply_changes successful str from_response session unified_dataset =
           (case server session (sent session)
                   (post_request (str (url unified_dataset) @ '':refresh'') refresh_headers) of
              Inl e \<Rightarrow>
                Some (Inl (External e),
                      session\<lparr>sent := sent session @
                        [post_request (str (url unified_dataset) @ '':refresh'') refresh_headers]\<rparr>)
            | Inr r \<Rightarrow>
                (case from_response (instance (url unified_dataset)) r of
                   Inl e \<Rightarrow>
                     Some (Inl e,
                       session\<lparr>sent := sent session @
                         [post_request (str (url unified_dataset) @ '':refresh'') refresh_headers]\<rparr>)
                 | Inr op \<Rightarrow>
                     wait successful str
                       (session\<lparr>sent := sent session @
                         [post_request (str (url unified_dataset) @ '':refresh'') refresh_headers]\<rparr>)
                       op)) \<and>
         (\<forall>res session'.
            apply_changes successful str from_response session unified_dataset = Some (res, session') \<longrightarrow>
              (\<exists>gets. sent session' =
                        sent session @
                        post_request (str (url unified_dataset) @ '':refresh'') refresh_headers # gets \<and>
                      (\<forall>g \<in> set gets. verb g = GET)) \<and>
              (\<forall>op. res = Inr op \<longrightarrow> is_terminal op))"
proof (intro conjI allI impI)
  show "apply_changes successful str from_response session unified_dataset =
           (case server session (sent session)
                   (post_request (str (url unified_dataset) @ '':refresh'') refresh_headers) of
              Inl e \<Rightarrow>
                Some (Inl (External e),
                      session\<lparr>sent := sent session @
                        [post_request (str (url unified_dataset) @ '':refresh'') refresh_headers]\<rparr>)
            | Inr r \<Rightarrow>
                (case from_response (instance (url unified_dataset)) r of
                   Inl e \<Rightarrow>
                     Some (Inl e,
                       session\<lparr>sent := sent session @
                         [post_request (str (url unified_dataset) @ '':refresh'') refresh_headers]\<rparr>)
                 | Inr op \<Rightarrow>
                     wait successful str
                       (session\<lparr>sent := sent session @
                         [post_request (str (url unified_dataset) @ '':refresh'') refresh_headers]\<rparr>)
                       op))"
    by (simp add: apply_changes_def apply_changes_async_def session_post_def issue_def
        split: sum.splits)
next
  fix res session'
  assume r: "apply_changes successful str from_response session unified_dataset = Some (res, session')"
  let ?rq = "post_request (str (url unified_dataset) @ '':refresh'') refresh_headers"
  obtain res1 s1 where a: "apply_changes_async str from_response session unified_dataset = (res1, s1)"
    by (cases "apply_changes_async str from_response session unified_dataset")
  from apply_changes_async_session [OF a] have s1: "s1 = session\<lparr>sent := sent session @ [?rq]\<rparr>" .
  have "(\<exists>gets. sent session' = sent session @ ?rq # gets \<and> (\<forall>g \<in> set gets. verb g = GET)) \<and>
        (\<forall>op. res = Inr op \<longrightarrow> is_terminal op)"
  proof (cases res1)
    case (Inl e)
    with r a have "res = Inl e" "session' = s1" by (simp_all add: apply_changes_def)
    with s1 show ?thesis by simp
  next
    case (Inr op)
    with r a have "wait successful str s1 op = Some (res, session')" by (simp add: apply_changes_def)
    from wait_returns [OF this] s1 show ?thesis by auto
  qed
  then show "\<exists>gets. sent session' = sent session @ ?rq # gets \<and> (\<forall>g \<in> set gets. verb g = GET)"
    and "\<And>op. res = Inr op \<Longrightarrow> is_terminal op" by blast+
qed

theorem apply_changes_posts_refresh_then_waits_witness:
  "apply_changes successful_2xx render from_response_fixed
     \<lparr>server = scripted [state_doc ''RUNNING'', state_doc ''SUCCEEDED''], sent = []\<rparr>
     \<lparr>url = dataset_url, name = PyStr ''ds'', key_attribute_names = [PyStr ''id''], description = PyNone\<rparr> =
   Some (Inr \<lparr>Operation.url = operation_url, state = ''SUCCEEDED'', Operation.description = PyNone,
              type = PyNone\<rparr>,
         \<lparr>server = scripted [state_doc ''RUNNING'', state_doc ''SUCCEEDED''],
          sent = [post_request ''tamr/datasets/7:refresh'' refresh_headers,
                  get_request ''tamr/operations/1'']\<rparr>) \<and>
   is_terminal \<lparr>Operation.url = operation_url, state = ''SUCCEEDED'', Operation.description = PyNone,
              type = PyNone\<rparr>"
proof -
  let ?s = "\<lparr>server = scripted [state_doc ''RUNNING'', state_doc ''SUCCEEDED''], sent = []\<rparr>"
  let ?ds = "\<lparr>url = dataset_url, name = PyStr ''ds'', key_attribute_names = [PyStr ''id''],
               description = PyNone\<rparr>"
  let ?opS = "\<lparr>Operation.url = operation_url, state = ''SUCCEEDED'', Operation.description = PyNone,
              type = PyNone\<rparr>"
  let ?s2 = "\<lparr>server = scripted [state_doc ''RUNNING'', state_doc ''SUCCEEDED''],
          sent = [post_request ''tamr/datasets/7:refresh'' refresh_headers,
                  get_request ''tamr/operations/1'']\<rparr>"
  note t = apply_changes_posts_refresh_then_waits [of successful_2xx render from_response_fixed ?s ?ds]
  from t [THEN conjunct1]
  have 1: "apply_changes successful_2xx render from_response_fixed ?s ?ds = Some (Inr ?opS, ?s2)"
    by (simp add: scripted_def from_response_fixed_def operation_from_json_def state_doc_def
        wait.simps is_terminal_def terminal_states_def poll_def session_get_def issue_def
        successful_2xx_def render_def dataset_url_def operation_url_def)
  from t [THEN conjunct2] 1 have "is_terminal ?opS" by blast
  with 1 show ?thesis by simp
qed


section \<open>Properties of the decoding of a unified dataset\<close>

lemma tuple_not_iterable: "not_iterable k \<Longrightarrow> (tuple k :: 'e error + pyval list) = Inl TypeError"
  by (cases k) (simp_all add: not_iterable_def)

lemma tuple_iterable: "\<not> not_iterable k \<Longrightarrow> \<exists>ks. (tuple k :: 'e error + pyval list) = Inr ks"
  by (cases k) (simp_all add: not_iterable_def)

lemma tuple_not_Malformed: "(tuple k :: 'e error + pyval list) \<noteq> Inl MalformedResponse"
  by (cases k) simp_all

lemma construct_value_not_Malformed:
  "(construct_value u data :: 'e error + ('i, pyval) UnifiedDataset) \<noteq> Inl MalformedResponse"
proof (cases "\<exists>kvs. data = PyDict kvs")
  case False
  then show ?thesis by (simp add: construct_value_not_dict)
next
  case True
  then obtain kvs where d: "data = PyDict kvs" by blast
  show ?thesis
    using tuple_not_Malformed [where 'e = 'e]
    by (auto simp: d construct_value_dict split: option.splits sum.splits)
qed

text \<open>
  C3, as the specification states it: every document in which \<open>name\<close> or
  \<open>keyAttributeNames\<close> is absent or of the wrong type fails with \<open>MalformedResponse\<close>. It does
  not hold: with room on the stack for a thousand frames, a document without \<open>name\<close> raises
  \<open>KeyError\<close>, and a document whose \<open>name\<close> is a number is decoded into a dataset with that
  number as its name.
\<close>

theorem from_json_malformed_counterexample:
  "\<not> required_fields_ok (PyDict [(''keyAttributeNames'', PyList [PyStr ''id''])]) \<and>
   (from_json 1000 dataset_url (PyDict [(''keyAttributeNames'', PyList [PyStr ''id''])])
      :: string error + (string, pyval) UnifiedDataset) = Inl (KeyError ''name'') \<and>
   (from_json 1000 dataset_url (PyDict [(''keyAttributeNames'', PyList [PyStr ''id''])])
      :: string error + (string, pyval) UnifiedDataset) \<noteq> Inl MalformedResponse \<and>
   \<not> required_fields_ok (PyDict [(''name'', PyInt 5), (''keyAttributeNames'', PyList [PyStr ''id''])]) \<and>
   (from_json 1000 dataset_url
      (PyDict [(''name'', PyInt 5), (''keyAttributeNames'', PyList [PyStr ''id''])])
      :: string error + (string, pyval) UnifiedDataset) =
     Inr \<lparr>url = dataset_url, name = PyInt 5, key_attribute_names = [PyStr ''id''],
          description = PyNone\<rparr>"
  by (simp add: required_fields_ok_def from_json_eq construct_value_dict)

text \<open>
  C3, amended. \<open>_from_json\<close> never raises \<open>MalformedResponse\<close>. A document whose copy needs
  more frames than the stack has room for raises \<open>RecursionError\<close>, whatever its fields.
  Of the documents that can be copied, one that is not a dict raises \<open>TypeError\<close>; a dict
  without \<open>name\<close> raises \<open>KeyError\<close> of \<open>name\<close>; a dict with \<open>name\<close> and without
  \<open>keyAttributeNames\<close> raises \<open>KeyError\<close> of \<open>keyAttributeNames\<close>; a dict with both whose
  \<open>keyAttributeNames\<close> is null, a boolean or a number raises \<open>TypeError\<close>. In every other
  case a dataset is returned whose \<open>name\<close> is the value of the document, of whatever type,
  and whose key attribute names are the elements of \<open>keyAttributeNames\<close>.
\<close>

theorem from_json_failures:
  fixes u :: "'i URL"
  shows "(from_json room u data :: 'e error + ('i, pyval) UnifiedDataset) \<noteq> Inl MalformedResponse \<and>
    (room < frames_needed data \<longrightarrow>
       (from_json room u data :: 'e error + ('i, pyval) UnifiedDataset) = Inl RecursionError) \<and>
    (frames_needed data \<le> room \<longrightarrow>
      ((\<forall>kvs. data \<noteq> PyDict kvs) \<longrightarrow>
         (from_json room u data :: 'e error + ('i, pyval) UnifiedDataset) = Inl TypeError) \<and>
      (\<forall>kvs. data = PyDict kvs \<and> map_of kvs ''name'' = None \<longrightarrow>
         (from_json room u data :: 'e error + ('i, pyval) UnifiedDataset) = Inl (KeyError ''name'')) \<and>
      (\<forall>kvs n. data = PyDict kvs \<and> map_of kvs ''name'' = Some n \<and>
          map_of kvs ''keyAttributeNames'' = None \<longrightarrow>
         (from_json room u data :: 'e error + ('i, pyval) UnifiedDataset) =
           Inl (KeyError ''keyAttributeNames'')) \<and>
      (\<forall>kvs n k. data = PyDict kvs \<and> map_of kvs ''name'' = Some n \<and>
          map_of kvs ''keyAttributeNames'' = Some k \<and> not_iterable k \<longrightarrow>
         (from_json room u data :: 'e error + ('i, pyval) UnifiedDataset) = Inl TypeError) \<and>
      (\<forall>kvs n k. data = PyDict kvs \<and> map_of kvs ''name'' = Some n \<and>
          map_of kvs ''keyAttributeNames'' = Some k \<and> \<not> not_iterable k \<longrightarrow>
         (\<exists>ks. (tuple k :: 'e error + pyval list) = Inr ks \<and>
            (from_json room u data :: 'e error + ('i, pyval) UnifiedDataset) =
            Inr \<lparr>url = u, name = n, key_attribute_names = ks,
                 description = (case map_of kvs ''description'' of None \<Rightarrow> PyNone | Some d \<Rightarrow> d)\<rparr>)))"
proof (intro conjI allI impI)
  show "(from_json room u data :: 'e error + ('i, pyval) UnifiedDataset) \<noteq> Inl MalformedResponse"
    by (simp add: from_json_eq construct_value_not_Malformed)
next
  assume "room < frames_needed data"
  then show "(from_json room u data :: 'e error + ('i, pyval) UnifiedDataset) = Inl RecursionError"
    by (simp add: from_json_eq)
next
  assume "frames_needed data \<le> room" and "\<forall>kvs. data \<noteq> PyDict kvs"
  then show "(from_json room u data :: 'e error + ('i, pyval) UnifiedDataset) = Inl TypeError"
    by (simp add: from_json_eq construct_value_not_dict)
next
  fix kvs
  assume "frames_needed data \<le> room" and "data = PyDict kvs \<and> map_of kvs ''name'' = None"
  then show "(from_json room u data :: 'e error + ('i, pyval) UnifiedDataset) = Inl (KeyError ''name'')"
    by (simp add: from_json_eq construct_value_dict)
next
  fix kvs n
  assume "frames_needed data \<le> room"
    and "data = PyDict kvs \<and> map_of kvs ''name'' = Some n \<and> map_of kvs ''keyAttributeNames'' = None"
  then show "(from_json room u data :: 'e error + ('i, pyval) UnifiedDataset) =
      Inl (KeyError ''keyAttributeNames'')"
    by (simp add: from_json_eq construct_value_dict)
next
  fix kvs n k
  assume "frames_needed data \<le> room"
    and "data = PyDict kvs \<and> map_of kvs ''name'' = Some n \<and>
        map_of kvs ''keyAttributeNames'' = Some k \<and> not_iterable k"
  then show "(from_json room u data :: 'e error + ('i, pyval) UnifiedDataset) = Inl TypeError"
    by (simp add: from_json_eq construct_value_dict tuple_not_iterable)
next
  fix kvs n k
  assume r: "frames_needed data \<le> room"
    and a: "data = PyDict kvs \<and> map_of kvs ''name'' = Some n \<and>
        map_of kvs ''keyAttributeNames'' = Some k \<and> \<not> not_iterable k"
  then obtain ks where "(tuple k :: 'e error + pyval list) = Inr ks"
    using tuple_iterable by blast
  with a r show "\<exists>ks. (tuple k :: 'e error + pyval list) = Inr ks \<and>
          (from_json room u data :: 'e error + ('i, pyval) UnifiedDataset) =
          Inr \<lparr>url = u, name = n, key_attribute_names = ks,
               description = (case map_of kvs ''description'' of None \<Rightarrow> PyNone | Some d \<Rightarrow> d)\<rparr>"
    by (simp add: from_json_eq construct_value_dict)
qed

theorem from_json_failures_witness:
  "(from_json 5 dataset_url
      (PyDict [(''name'', PyStr ''ds''), (''keyAttributeNames'', PyList [PyList [PyStr ''id'']])])
      :: string error + (string, pyval) UnifiedDataset) = Inl RecursionError \<and>
   (from_json 1000 dataset_url (PyInt 3) :: string error + (string, pyval) UnifiedDataset) =
     Inl TypeError \<and>
   (from_json 1000 dataset_url (PyDict [(''description'', PyStr ''d'')])
      :: string error + (string, pyval) UnifiedDataset) = Inl (KeyError ''name'') \<and>
   (from_json 1000 dataset_url (PyDict [(''name'', PyStr ''ds'')])
      :: string error + (string, pyval) UnifiedDataset) = Inl (KeyError ''keyAttributeNames'') \<and>
   (from_json 1000 dataset_url (PyDict [(''name'', PyStr ''ds''), (''keyAttributeNames'', PyNone)])
      :: string error + (string, pyval) UnifiedDataset) = Inl TypeError \<and>
   (from_json 1000 dataset_url (PyDict [(''name'', PyInt 5), (''keyAttributeNames'', PyStr ''ab'')])
      :: string error + (string, pyval) UnifiedDataset) =
     Inr \<lparr>url = dataset_url, name = PyInt 5, key_attribute_names = [PyStr ''a'', PyStr ''b''],
          description = PyNone\<rparr>"
proof -
  note t = from_json_failures [where 'e = string and u = dataset_url]
  have 0: "(from_json 5 dataset_url
      (PyDict [(''name'', PyStr ''ds''), (''keyAttributeNames'', PyList [PyList [PyStr ''id'']])])
      :: string error + (string, pyval) UnifiedDataset) = Inl RecursionError"
    using t [of 5 "PyDict [(''name'', PyStr ''ds''),
                           (''keyAttributeNames'', PyList [PyList [PyStr ''id'']])]"]
    by simp
  have 1: "(from_json 1000 dataset_url (PyInt 3) :: string error + (string, pyval) UnifiedDataset) =
      Inl TypeError"
    using t [of 1000 "PyInt 3"] by simp
  have 2: "(from_json 1000 dataset_url (PyDict [(''description'', PyStr ''d'')])
      :: string error + (string, pyval) UnifiedDataset) = Inl (KeyError ''name'')"
    using t [of 1000 "PyDict [(''description'', PyStr ''d'')]"] by simp
  have 3: "(from_json 1000 dataset_url (PyDict [(''name'', PyStr ''ds'')])
      :: string error + (string, pyval) UnifiedDataset) = Inl (KeyError ''keyAttributeNames'')"
    using t [of 1000 "PyDict [(''name'', PyStr ''ds'')]"] by simp
  have 4: "(from_json 1000 dataset_url (PyDict [(''name'', PyStr ''ds''), (''keyAttributeNames'', PyNone)])
      :: string error + (string, pyval) UnifiedDataset) = Inl TypeError"
    using t [of 1000 "PyDict [(''name'', PyStr ''ds''), (''keyAttributeNames'', PyNone)]"]
    by (simp add: not_iterable_def)
  have 5: "(from_json 1000 dataset_url (PyDict [(''name'', PyInt 5), (''keyAttributeNames'', PyStr ''ab'')])
      :: string error + (string, pyval) UnifiedDataset) =
     Inr \<lparr>url = dataset_url, name = PyInt 5, key_attribute_names = [PyStr ''a'', PyStr ''b''],
          description = PyNone\<rparr>"
    using t [of 1000 "PyDict [(''name'', PyInt 5), (''keyAttributeNames'', PyStr ''ab'')]"]
    by (simp add: not_iterable_def)
  from 0 1 2 3 4 5 show ?thesis by blast
qed

section \<open>Properties of the cluster datasets of a mastering project\<close>

text \<open>
  C9. When the unified dataset of the project has been fetched, each of the three methods
  makes one lookup by name in the client's dataset collection, and the name is that of the
  unified dataset followed by a fixed suffix: \<^verbatim>\<open>_dedup_published_clusters\<close> for
  \<open>published_clusters\<close> (which rebuilds the dataset found under the alias
  \<^verbatim>\<open>/publishedClusters\<close> of the project), \<^verbatim>\<open>_dedup_clusters_with_data\<close> for
  \<open>record_clusters_with_data\<close> and \<^verbatim>\<open>_dedup_published_clusters_with_data\<close> for
  \<open>published_clusters_with_data\<close>.
\<close>

theorem cluster_datasets_named_by_suffix:
  fixes unified_dataset :: "MasteringProject \<Rightarrow> ('d, 'x) Client \<Rightarrow> ('x + 'd) \<times> ('d, 'x) Client"
  assumes "unified_dataset self client = (Inr ud, client1)"
  shows "published_clusters unified_dataset name_of data_of dataset_from_json self client =
           ((case datasets client1 (name_of ud @ ''_dedup_published_clusters'') of
               Inl e \<Rightarrow> Inl e
             | Inr canonical \<Rightarrow>
                 dataset_from_json (data_of canonical) (api_path self @ ''/publishedClusters'')),
            client1\<lparr>looked_up := looked_up client1 @ [name_of ud @ ''_dedup_published_clusters'']\<rparr>) \<and>
         record_clusters_with_data unified_dataset name_of self client =
           (datasets client1 (name_of ud @ ''_dedup_clusters_with_data''),
            client1\<lparr>looked_up := looked_up client1 @ [name_of ud @ ''_dedup_clusters_with_data'']\<rparr>) \<and>
         published_clusters_with_data unified_dataset name_of self client =
           (datasets client1 (name_of ud @ ''_dedup_published_clusters_with_data''),
            client1\<lparr>looked_up :=
               looked_up client1 @ [name_of ud @ ''_dedup_published_clusters_with_data'']\<rparr>)"
proof (intro conjI)
  show "published_clusters unified_dataset name_of data_of dataset_from_json self client =
           ((case datasets client1 (name_of ud @ ''_dedup_published_clusters'') of
               Inl e \<Rightarrow> Inl e
             | Inr canonical \<Rightarrow>
                 dataset_from_json (data_of canonical) (api_path self @ ''/publishedClusters'')),
            client1\<lparr>looked_up := looked_up client1 @ [name_of ud @ ''_dedup_published_clusters'']\<rparr>)"
    using assms by (simp add: published_clusters_def by_name_def split: sum.splits)
  show "record_clusters_with_data unified_dataset name_of self client =
           (datasets client1 (name_of ud @ ''_dedup_clusters_with_data''),
            client1\<lparr>looked_up := looked_up client1 @ [name_of ud @ ''_dedup_clusters_with_data'']\<rparr>)"
    using assms by (simp add: record_clusters_with_data_def by_name_def)
  show "published_clusters_with_data unified_dataset name_of self client =
           (datasets client1 (name_of ud @ ''_dedup_published_clusters_with_data''),
            client1\<lparr>looked_up :=
               looked_up client1 @ [name_of ud @ ''_dedup_published_clusters_with_data'']\<rparr>)"
    using assms by (simp add: published_clusters_with_data_def by_name_def)
qed

theorem cluster_datasets_named_by_suffix_witness:
  "published_clusters fetch_unified fst snd rebuild \<lparr>api_path = ''projects/1''\<rparr>
     \<lparr>datasets = all_datasets, looked_up = []\<rparr> =
     (Inr (''projects/1/publishedClusters'', PyNone),
      \<lparr>datasets = all_datasets, looked_up = [''ud_dedup_published_clusters'']\<rparr>) \<and>
   record_clusters_with_data fetch_unified fst \<lparr>api_path = ''projects/1''\<rparr>
     \<lparr>datasets = all_datasets, looked_up = []\<rparr> =
     (Inr (''ud_dedup_clusters_with_data'', PyNone),
      \<lparr>datasets = all_datasets, looked_up = [''ud_dedup_clusters_with_data'']\<rparr>) \<and>
   published_clusters_with_data fetch_unified fst \<lparr>api_path = ''projects/1''\<rparr>
     \<lparr>datasets = all_datasets, looked_up = []\<rparr> =
     (Inr (''ud_dedup_published_clusters_with_data'', PyNone),
      \<lparr>datasets = all_datasets, looked_up = [''ud_dedup_published_clusters_with_data'']\<rparr>)"
proof -
  let ?c = "\<lparr>datasets = all_datasets, looked_up = []\<rparr>"
  let ?p = "\<lparr>api_path = ''projects/1''\<rparr>"
  have h: "fetch_unified ?p ?c = (Inr (''ud'', PyNone), ?c)" by (simp add: fetch_unified_def)
  from cluster_datasets_named_by_suffix
         [where unified_dataset = fetch_unified and name_of = fst and data_of = snd
            and dataset_from_json = rebuild, OF h]
  show ?thesis by (simp add: all_datasets_def rebuild_def)
qed

section \<open>Properties of the copy in a store\<close>

subsection \<open>The memo as a renaming\<close>

text \<open>A memo that grows renames as before what it could rename before.\<close>

lemma rename_mono: "refs_val v \<subseteq> dom m \<Longrightarrow> m \<subseteq>\<^sub>m m' \<Longrightarrow> rename m' v = rename m v"
  by (cases v) (auto simp: map_le_def dom_def split: option.splits)

lemma rename_obj_mono:
  assumes "refs_obj x \<subseteq> dom m" and "m \<subseteq>\<^sub>m m'"
  shows "rename_obj m' x = rename_obj m x"
proof -
  have "map (rename m') (elems x) = map (rename m) (elems x)"
    using assms by (auto simp: refs_obj_def intro!: rename_mono)
  then show ?thesis by (simp only: rename_obj_def)
qed

text \<open>
  Lists and dicts are copied alike: the elements are copied and put in the places of the
  originals.
\<close>

lemma deepcopy_st_ref:
  "deepcopy_st (Suc n) (VRef a) (s, m) =
     (case m a of
        Some b \<Rightarrow> Some (VRef b, s, m)
      | None \<Rightarrow>
          (case copy_items (deepcopy_st n) (elems (objs s a))
                  (s\<lparr>objs := (objs s)(next_free s := with_elems (objs s a) []),
                     next_free := Suc (next_free s)\<rparr>, m(a \<mapsto> next_free s)) of
             None \<Rightarrow> None
           | Some (ys, s2, m2) \<Rightarrow>
               Some (VRef (next_free s),
                     s2\<lparr>objs := (objs s2)(next_free s := with_elems (objs s a) ys)\<rparr>, m2)))"
  by (cases "objs s a") (simp_all add: alloc_def put_obj_def split: option.splits)

lemma deepcopy_st_atom:
  "refs_val v = {} \<Longrightarrow> deepcopy_st (Suc n) v sm = Some (v, sm)"
  by (cases v) simp_all

subsection \<open>How a copy changes the store and the memo\<close>

lemma extends_refl: "dom (snd sm) \<subseteq> {..< L} \<Longrightarrow> extends L sm sm"
  by (cases sm) (auto simp: extends_def)

lemma extends_copying:
  assumes "copying L sm" and "extends L sm sm'"
  shows "copying L sm'"
  using assms by (cases sm; cases sm') (auto simp: copying_def extends_def)

lemma extends_trans:
  assumes c: "copying L sm" and e1: "extends L sm sm1" and e2: "extends L sm1 sm2"
  shows "extends L sm sm2"
proof -
  obtain s m where sm: "sm = (s, m)" by (cases sm)
  obtain s1 m1 where sm1: "sm1 = (s1, m1)" by (cases sm1)
  obtain s2 m2 where sm2: "sm2 = (s2, m2)" by (cases sm2)
  from c sm have L: "L \<le> next_free s" by (simp add: copying_def)
  from e1 sm sm1 have a1: "m \<subseteq>\<^sub>m m1" "next_free s \<le> next_free s1"
    "\<forall>a < next_free s. objs s1 a = objs s a" "dom m1 \<subseteq> {..< L}"
    and n1: "\<And>a b. m1 a = Some b \<Longrightarrow> m a = None \<Longrightarrow>
           next_free s \<le> b \<and> b < next_free s1 \<and>
           objs s1 b = rename_obj m1 (objs s a) \<and> refs_obj (objs s a) \<subseteq> dom m1"
    by (simp_all add: extends_def)
  from e2 sm1 sm2 have a2: "m1 \<subseteq>\<^sub>m m2" "next_free s1 \<le> next_free s2"
    "\<forall>a < next_free s1. objs s2 a = objs s1 a" "dom m2 \<subseteq> {..< L}"
    and n2: "\<And>a b. m2 a = Some b \<Longrightarrow> m1 a = None \<Longrightarrow>
           next_free s1 \<le> b \<and> b < next_free s2 \<and>
           objs s2 b = rename_obj m2 (objs s1 a) \<and> refs_obj (objs s1 a) \<subseteq> dom m2"
    by (simp_all add: extends_def)
  have new: "next_free s \<le> b \<and> b < next_free s2 \<and>
           objs s2 b = rename_obj m2 (objs s a) \<and> refs_obj (objs s a) \<subseteq> dom m2"
    if h: "m2 a = Some b" "m a = None" for a b
  proof (cases "m1 a")
    case None
    from n2 [OF h(1) None] have *: "next_free s1 \<le> b" "b < next_free s2"
      "objs s2 b = rename_obj m2 (objs s1 a)" "refs_obj (objs s1 a) \<subseteq> dom m2" by simp_all
    from h(1) a2(4) have "a < L" by auto
    with L a1(3) have "objs s1 a = objs s a" by simp
    with * a1(2) show ?thesis by simp
  next
    case (Some b1)
    with a2(1) have "m2 a = Some b1" by (auto simp: map_le_def dom_def)
    with h(1) have b: "b1 = b" by simp
    from n1 [OF Some h(2)] b have *: "next_free s \<le> b" "b < next_free s1"
      "objs s1 b = rename_obj m1 (objs s a)" "refs_obj (objs s a) \<subseteq> dom m1" by simp_all
    from * a2(3) have "objs s2 b = rename_obj m1 (objs s a)" by simp
    also have "\<dots> = rename_obj m2 (objs s a)"
      using rename_obj_mono [OF *(4) a2(1)] by simp
    finally have "objs s2 b = rename_obj m2 (objs s a)" .
    moreover have "refs_obj (objs s a) \<subseteq> dom m2"
      using *(4) a2(1) by (auto simp: map_le_def dom_def)
    ultimately show ?thesis using * a2(2) by simp
  qed
  have "m \<subseteq>\<^sub>m m2" using a1(1) a2(1) by (rule map_le_trans)
  moreover have "next_free s \<le> next_free s2" using a1(2) a2(2) by simp
  moreover have "\<forall>a < next_free s. objs s2 a = objs s a" using a1(2,3) a2(3) by simp
  moreover have "\<forall>a b. m2 a = Some b \<and> m a = None \<longrightarrow>
           next_free s \<le> b \<and> b < next_free s2 \<and>
           objs s2 b = rename_obj m2 (objs s a) \<and> refs_obj (objs s a) \<subseteq> dom m2"
    using new by blast
  ultimately show ?thesis using a2(4) by (simp add: sm sm2 extends_def)
qed

lemma copying_refl: "copying L sm \<Longrightarrow> extends L sm sm"
  by (rule extends_refl) (cases sm, simp add: copying_def)

lemma rename_atom: "refs_val v = {} \<Longrightarrow> rename m v = v"
  by (cases v) simp_all

lemma extends_map_le: "extends L sm sm' \<Longrightarrow> snd sm \<subseteq>\<^sub>m snd sm'"
  by (cases sm; cases sm') (simp add: extends_def)

text \<open>
  A copy, with any fuel, extends the state it starts in, leaves every reference of its
  argument known to the memo, and returns its argument renamed through the memo.
\<close>

lemma copy_items_spec:
  assumes cp: "\<And>x sm y sm1. x \<in> set xs \<Longrightarrow> copying L sm \<Longrightarrow> cp x sm = Some (y, sm1) \<Longrightarrow>
             extends L sm sm1 \<and> refs_val x \<subseteq> dom (snd sm1) \<and> y = rename (snd sm1) x"
    and "copying L sm" and "copy_items cp xs sm = Some (ys, sm')"
  shows "extends L sm sm' \<and> (\<forall>x \<in> set xs. refs_val x \<subseteq> dom (snd sm')) \<and>
         ys = map (rename (snd sm')) xs"
  using assms
proof (induction xs arbitrary: sm ys)
  case Nil
  then show ?case by (simp add: copying_refl)
next
  case (Cons x xs)
  from Cons.prems(3) obtain y sm1 ys' where
    x: "cp x sm = Some (y, sm1)" and xs: "copy_items cp xs sm1 = Some (ys', sm')"
    and ys: "ys = y # ys'"
    by (auto split: option.splits)
  from Cons.prems(1) [OF _ Cons.prems(2) x]
  have e1: "extends L sm sm1" and r: "refs_val x \<subseteq> dom (snd sm1)" and y: "y = rename (snd sm1) x"
    by simp_all
  from Cons.prems(2) e1 have c1: "copying L sm1" by (rule extends_copying)
  have "extends L sm1 sm' \<and> (\<forall>x \<in> set xs. refs_val x \<subseteq> dom (snd sm')) \<and>
         ys' = map (rename (snd sm')) xs"
  proof (rule Cons.IH [OF _ c1 xs])
    fix x' sm0 y0 sm10
    assume "x' \<in> set xs" and "copying L sm0" and "cp x' sm0 = Some (y0, sm10)"
    then show "extends L sm0 sm10 \<and> refs_val x' \<subseteq> dom (snd sm10) \<and> y0 = rename (snd sm10) x'"
      using Cons.prems(1) [of x' sm0 y0 sm10] by simp
  qed
  then have e2: "extends L sm1 sm'" and rs: "\<forall>x \<in> set xs. refs_val x \<subseteq> dom (snd sm')"
    and ys': "ys' = map (rename (snd sm')) xs"
    by simp_all
  from Cons.prems(2) e1 e2 have e: "extends L sm sm'" by (rule extends_trans)
  from e2 have le: "snd sm1 \<subseteq>\<^sub>m snd sm'" by (rule extends_map_le)
  from r le have r': "refs_val x \<subseteq> dom (snd sm')" by (auto simp: map_le_def dom_def)
  from rename_mono [OF r le] y have "y = rename (snd sm') x" by simp
  with e rs r' ys ys' show ?case by simp
qed

lemma elems_with_elems: "length ys = length (elems x) \<Longrightarrow> elems (with_elems x ys) = ys"
  by (cases x) simp_all

lemma deepcopy_spec:
  assumes "copying L sm" and "refs_val v \<subseteq> {..< L}" and "deepcopy_st n v sm = Some (v', sm')"
  shows "extends L sm sm' \<and> refs_val v \<subseteq> dom (snd sm') \<and> v' = rename (snd sm') v"
  using assms
proof (induction n arbitrary: v sm v' sm')
  case 0
  then show ?case by simp
next
  case (Suc n)
  show ?case
  proof (cases "refs_val v = {}")
    case True
    with Suc.prems(3) have "v' = v" "sm' = sm" by (simp_all add: deepcopy_st_atom)
    with True Suc.prems(1) show ?thesis
      by (simp add: rename_atom copying_refl)
  next
    case False
    then obtain a where v: "v = VRef a" by (cases v) simp_all
    obtain s m where sm: "sm = (s, m)" by (cases sm)
    from Suc.prems(2) v have aL: "a < L" by simp
    from Suc.prems(1) sm have L: "L \<le> next_free s"
      and cl: "\<forall>a < L. refs_obj (objs s a) \<subseteq> {..< L}" and dm: "dom m \<subseteq> {..< L}"
      by (simp_all add: copying_def)
    show ?thesis
    proof (cases "m a")
      case (Some b)
      with Suc.prems(3) v sm have "v' = VRef b" "sm' = (s, m)" by simp_all
      with Some v sm Suc.prems(1) show ?thesis by (auto simp: copying_refl)
    next
      case None
      let ?b = "next_free s"
      let ?x = "objs s a"
      let ?s1 = "s\<lparr>objs := (objs s)(?b := with_elems ?x []), next_free := Suc ?b\<rparr>"
      let ?m1 = "m(a \<mapsto> ?b)"
      from Suc.prems(3) v sm None obtain ys s2 m2 where
        ci: "copy_items (deepcopy_st n) (elems ?x) (?s1, ?m1) = Some (ys, s2, m2)"
        and v': "v' = VRef ?b"
        and sm': "sm' = (s2\<lparr>objs := (objs s2)(?b := with_elems ?x ys)\<rparr>, m2)"
        by (auto simp: deepcopy_st_ref simp del: deepcopy_st.simps split: option.splits)
      have c1: "copying L (?s1, ?m1)"
        using L cl dm aL by (auto simp: copying_def)
      have el: "\<forall>y \<in> set (elems ?x). refs_val y \<subseteq> {..< L}"
        using cl aL by (auto simp: refs_obj_def)
      have "extends L (?s1, ?m1) (s2, m2) \<and>
            (\<forall>y \<in> set (elems ?x). refs_val y \<subseteq> dom (snd (s2, m2))) \<and>
            ys = map (rename (snd (s2, m2))) (elems ?x)"
      proof (rule copy_items_spec [OF _ c1 ci])
        fix y sm0 y' sm1
        assume "y \<in> set (elems ?x)" and "copying L sm0" and "deepcopy_st n y sm0 = Some (y', sm1)"
        with el show "extends L sm0 sm1 \<and> refs_val y \<subseteq> dom (snd sm1) \<and> y' = rename (snd sm1) y"
          by (intro Suc.IH) auto
      qed
      then have e: "extends L (?s1, ?m1) (s2, m2)"
        and rs: "\<forall>y \<in> set (elems ?x). refs_val y \<subseteq> dom m2"
        and ys: "ys = map (rename m2) (elems ?x)"
        by simp_all
      from e have i: "?m1 \<subseteq>\<^sub>m m2" and ii: "Suc ?b \<le> next_free s2"
        and iii: "\<forall>c < Suc ?b. objs s2 c = objs ?s1 c" and iv: "dom m2 \<subseteq> {..< L}"
        and v5: "\<And>c d. m2 c = Some d \<Longrightarrow> ?m1 c = None \<Longrightarrow>
           Suc ?b \<le> d \<and> d < next_free s2 \<and>
           objs s2 d = rename_obj m2 (objs ?s1 c) \<and> refs_obj (objs ?s1 c) \<subseteq> dom m2"
        by (simp_all add: extends_def)
      from i have m2a: "m2 a = Some ?b" by (auto simp: map_le_def)
      let ?s3 = "s2\<lparr>objs := (objs s2)(?b := with_elems ?x ys)\<rparr>"
      have "m \<subseteq>\<^sub>m ?m1" using None by (auto simp: map_le_def)
      then have g1: "m \<subseteq>\<^sub>m m2" using i by (rule map_le_trans)
      have g2: "next_free s \<le> next_free ?s3" using ii by simp
      have g3: "\<forall>c < next_free s. objs ?s3 c = objs s c" using iii by simp
      have g5: "\<forall>c d. m2 c = Some d \<and> m c = None \<longrightarrow>
           next_free s \<le> d \<and> d < next_free ?s3 \<and>
           objs ?s3 d = rename_obj m2 (objs s c) \<and> refs_obj (objs s c) \<subseteq> dom m2"
      proof (intro allI impI)
        fix c d assume h: "m2 c = Some d \<and> m c = None"
        show "next_free s \<le> d \<and> d < next_free ?s3 \<and>
           objs ?s3 d = rename_obj m2 (objs s c) \<and> refs_obj (objs s c) \<subseteq> dom m2"
        proof (cases "c = a")
          case True
          with h m2a have d: "d = ?b" by simp
          have "objs ?s3 ?b = rename_obj m2 ?x" using ys by (simp add: rename_obj_def)
          moreover have "refs_obj ?x \<subseteq> dom m2" using rs by (auto simp: refs_obj_def)
          ultimately show ?thesis using d True ii by simp
        next
          case False
          with h have "?m1 c = None" by simp
          from v5 [OF _ this] h have *: "Suc ?b \<le> d" "d < next_free s2"
            "objs s2 d = rename_obj m2 (objs ?s1 c)" "refs_obj (objs ?s1 c) \<subseteq> dom m2"
            by simp_all
          from h iv have "c < L" by auto
          with L have "c \<noteq> ?b" by simp
          then have "objs ?s1 c = objs s c" by simp
          with * show ?thesis by simp
        qed
      qed
      have "extends L (s, m) (?s3, m2)"
        using g1 g2 g3 iv g5 by (simp add: extends_def)
      with sm sm' v v' m2a show ?thesis by auto
    qed
  qed
qed


subsection \<open>Fuel\<close>

text \<open>
  More fuel does not change a result, and a value that unfolds to a JSON value is copied
  with a fuel that depends on that value alone.
\<close>

lemma copy_items_mono:
  assumes "\<And>x sm r. x \<in> set xs \<Longrightarrow> cp x sm = Some r \<Longrightarrow> cp' x sm = Some r"
    and "copy_items cp xs sm = Some r"
  shows "copy_items cp' xs sm = Some r"
  using assms
proof (induction xs arbitrary: sm r)
  case Nil
  then show ?case by simp
next
  case (Cons x xs)
  from Cons.prems(2) obtain y sm1 ys sm2 where
    x: "cp x sm = Some (y, sm1)" and xs: "copy_items cp xs sm1 = Some (ys, sm2)"
    and r: "r = (y # ys, sm2)"
    by (auto split: option.splits)
  from Cons.prems(1) x have "cp' x sm = Some (y, sm1)" by simp
  moreover have "copy_items cp' xs sm1 = Some (ys, sm2)"
    using Cons.prems(1) xs by (intro Cons.IH) simp_all
  ultimately show ?case using r by simp
qed

lemma deepcopy_st_Suc: "deepcopy_st n v sm = Some r \<Longrightarrow> deepcopy_st (Suc n) v sm = Some r"
proof (induction n arbitrary: v sm r)
  case 0
  then show ?case by simp
next
  case (Suc n)
  show ?case
  proof (cases "refs_val v = {}")
    case True
    with Suc.prems show ?thesis by (simp add: deepcopy_st_atom)
  next
    case False
    then obtain a where v: "v = VRef a" by (cases v) simp_all
    obtain s m where sm: "sm = (s, m)" by (cases sm)
    show ?thesis
    proof (cases "m a")
      case (Some b)
      with Suc.prems v sm show ?thesis by simp
    next
      case None
      let ?s1 = "s\<lparr>objs := (objs s)(next_free s := with_elems (objs s a) []),
                    next_free := Suc (next_free s)\<rparr>"
      from Suc.prems v sm None obtain ys s2 m2 where
        ci: "copy_items (deepcopy_st n) (elems (objs s a)) (?s1, m(a \<mapsto> next_free s)) =
               Some (ys, s2, m2)"
        and r: "r = (VRef (next_free s),
                     s2\<lparr>objs := (objs s2)(next_free s := with_elems (objs s a) ys)\<rparr>, m2)"
        by (auto simp: deepcopy_st_ref simp del: deepcopy_st.simps split: option.splits)
      have "copy_items (deepcopy_st (Suc n)) (elems (objs s a)) (?s1, m(a \<mapsto> next_free s)) =
               Some (ys, s2, m2)"
        using ci by (rule copy_items_mono [rotated]) (rule Suc.IH)
      with v sm None r show ?thesis
        by (simp add: deepcopy_st_ref [of "Suc n"] del: deepcopy_st.simps)
    qed
  qed
qed

lemma deepcopy_st_mono:
  "n \<le> k \<Longrightarrow> deepcopy_st n v sm = Some r \<Longrightarrow> deepcopy_st k v sm = Some r"
  by (induction k) (auto simp: le_Suc_eq dest: deepcopy_st_Suc simp del: deepcopy_st.simps)

lemma deep_refs: "deep s v t \<Longrightarrow> refs_val v \<subseteq> {..< next_free s}"
  by (induction rule: deep.induct) simp_all

lemma copy_items_succeeds:
  assumes run: "\<And>x sm. x \<in> set xs \<Longrightarrow> P sm \<Longrightarrow> \<exists>r. cp x sm = Some r"
    and keep: "\<And>x sm y sm1. x \<in> set xs \<Longrightarrow> P sm \<Longrightarrow> cp x sm = Some (y, sm1) \<Longrightarrow> P sm1"
    and "P sm"
  shows "\<exists>r. copy_items cp xs sm = Some r"
  using assms
proof (induction xs arbitrary: sm)
  case Nil
  then show ?case by simp
next
  case (Cons x xs)
  from Cons.prems(1) [of x sm] Cons.prems(3) obtain y sm1 where x: "cp x sm = Some (y, sm1)"
    by auto
  from Cons.prems(2) [OF _ Cons.prems(3) x] have p1: "P sm1" by simp
  have "\<exists>r. copy_items cp xs sm1 = Some r"
  proof (rule Cons.IH [OF _ _ p1])
    fix x' sm0 assume "x' \<in> set xs" "P sm0"
    then show "\<exists>r. cp x' sm0 = Some r" using Cons.prems(1) [of x' sm0] by simp
  next
    fix x' sm0 y0 sm10 assume "x' \<in> set xs" "P sm0" "cp x' sm0 = Some (y0, sm10)"
    then show "P sm10" using Cons.prems(2) [of x' sm0 y0 sm10] by simp
  qed
  with x show ?case by auto
qed

lemma during_extends:
  assumes "during s0 sm" and "extends (next_free s0) sm sm'"
  shows "during s0 sm'"
proof -
  obtain s m where sm: "sm = (s, m)" by (cases sm)
  obtain s' m' where sm': "sm' = (s', m')" by (cases sm')
  from assms(1) have c: "copying (next_free s0) sm" by (simp add: during_def)
  from c assms(2) have "copying (next_free s0) sm'" by (rule extends_copying)
  moreover have "\<forall>a < next_free s0. objs s' a = objs s0 a"
    using assms c by (auto simp: sm sm' during_def extends_def copying_def)
  ultimately show ?thesis by (simp add: during_def sm')
qed

lemma deepcopy_ref_terminates:
  assumes a: "a < next_free s0"
    and el: "\<forall>x \<in> set (elems (objs s0 a)). refs_val x \<subseteq> {..< next_free s0} \<and>
              (\<forall>sm. during s0 sm \<longrightarrow> (\<exists>r. deepcopy_st N x sm = Some r))"
    and d: "during s0 sm"
  shows "\<exists>r. deepcopy_st (Suc N) (VRef a) sm = Some r"
proof -
  obtain s m where sm: "sm = (s, m)" by (cases sm)
  show ?thesis
  proof (cases "m a")
    case (Some b)
    with sm show ?thesis by simp
  next
    case None
    let ?L = "next_free s0"
    let ?s1 = "s\<lparr>objs := (objs s)(next_free s := with_elems (objs s a) []),
                  next_free := Suc (next_free s)\<rparr>"
    let ?m1 = "m(a \<mapsto> next_free s)"
    from d sm have c: "copying ?L (s, m)" and ag: "\<forall>a < ?L. objs s a = objs s0 a"
      by (simp_all add: during_def)
    from ag a have x: "objs s a = objs s0 a" by simp
    from c have L: "?L \<le> next_free s" by (simp add: copying_def)
    have d1: "during s0 (?s1, ?m1)"
      using c ag a L by (auto simp: during_def copying_def)
    have "\<exists>r. copy_items (deepcopy_st N) (elems (objs s a)) (?s1, ?m1) = Some r"
    proof (rule copy_items_succeeds [where P = "during s0", OF _ _ d1])
      fix y sm0 assume "y \<in> set (elems (objs s a))" "during s0 sm0"
      with el x show "\<exists>r. deepcopy_st N y sm0 = Some r" by metis
    next
      fix y sm0 y' sm1
      assume y: "y \<in> set (elems (objs s a))" and d0: "during s0 sm0"
        and r: "deepcopy_st N y sm0 = Some (y', sm1)"
      from d0 have "copying ?L sm0" by (simp add: during_def)
      moreover from y el x have "refs_val y \<subseteq> {..< ?L}" by simp
      ultimately have "extends ?L sm0 sm1" using r by (auto dest: deepcopy_spec)
      with d0 show "during s0 sm1" by (rule during_extends)
    qed
    with sm None show ?thesis
      by (auto simp: deepcopy_st_ref simp del: deepcopy_st.simps)
  qed
qed

lemma deep_refs_all:
  assumes "list_all2 (\<lambda>x t. deep s x t \<and> Q x t) xs ts"
  shows "\<forall>x \<in> set xs. refs_val x \<subseteq> {..< next_free s}"
  using assms by (induction rule: list_all2_induct) (auto dest: deep_refs)

lemma uniform_fuel:
  assumes "list_all2 (\<lambda>x t. deep s0 x t \<and>
             (\<exists>n. \<forall>sm. during s0 sm \<longrightarrow> (\<exists>r. deepcopy_st n x sm = Some r))) xs ts"
  shows "\<exists>N. \<forall>x \<in> set xs. \<forall>sm. during s0 sm \<longrightarrow> (\<exists>r. deepcopy_st N x sm = Some r)"
  using assms
proof (induction rule: list_all2_induct)
  case Nil
  then show ?case by simp
next
  case (Cons x xs t ts)
  then obtain n N where n: "\<forall>sm. during s0 sm \<longrightarrow> (\<exists>r. deepcopy_st n x sm = Some r)"
    and N: "\<forall>x \<in> set xs. \<forall>sm. during s0 sm \<longrightarrow> (\<exists>r. deepcopy_st N x sm = Some r)"
    by blast
  have "\<exists>r. deepcopy_st (max n N) y sm = Some r" if y: "y \<in> set (x # xs)" and d: "during s0 sm"
    for y sm
  proof (cases "y = x")
    case True
    with n d obtain r where "deepcopy_st n y sm = Some r" by blast
    then have "deepcopy_st (max n N) y sm = Some r" by (rule deepcopy_st_mono [rotated]) simp
    then show ?thesis by blast
  next
    case False
    with y have "y \<in> set xs" by simp
    with N d obtain r where "deepcopy_st N y sm = Some r" by blast
    then have "deepcopy_st (max n N) y sm = Some r" by (rule deepcopy_st_mono [rotated]) simp
    then show ?thesis by blast
  qed
  then show ?case by blast
qed

lemma deepcopy_terminates:
  assumes "deep s0 v t"
  shows "\<exists>n. \<forall>sm. during s0 sm \<longrightarrow> (\<exists>r. deepcopy_st n v sm = Some r)"
  using assms
proof (induction rule: deep.induct)
  case (deep_List a xs ts)
  from uniform_fuel [OF deep_List(3)] obtain N where
    N: "\<forall>x \<in> set xs. \<forall>sm. during s0 sm \<longrightarrow> (\<exists>r. deepcopy_st N x sm = Some r)" by blast
  have "\<forall>x \<in> set xs. refs_val x \<subseteq> {..< next_free s0}"
    using deep_List(3) by (rule deep_refs_all)
  with N deep_List(1,2) have "\<forall>sm. during s0 sm \<longrightarrow> (\<exists>r. deepcopy_st (Suc N) (VRef a) sm = Some r)"
    by (intro allI impI deepcopy_ref_terminates) auto
  then show ?case by blast
next
  case (deep_Dict a kvs ts)
  from uniform_fuel [OF deep_Dict(3)] obtain N where
    N: "\<forall>x \<in> set (map snd kvs). \<forall>sm. during s0 sm \<longrightarrow> (\<exists>r. deepcopy_st N x sm = Some r)"
    by blast
  have "\<forall>x \<in> set (map snd kvs). refs_val x \<subseteq> {..< next_free s0}"
    using deep_Dict(3) by (rule deep_refs_all)
  with N deep_Dict(1,2) have "\<forall>sm. during s0 sm \<longrightarrow> (\<exists>r. deepcopy_st (Suc N) (VRef a) sm = Some r)"
    by (intro allI impI deepcopy_ref_terminates) auto
  then show ?case by blast
qed (auto intro!: exI [of _ "Suc 0"])


subsection \<open>What values stand for, before and after\<close>

text \<open>
  A value stands for the same JSON value in two stores that agree on a set of objects that
  holds its references and refers to itself only; the copy of a value stands for what the
  original stands for.
\<close>

lemma list_all2_guarded:
  assumes "list_all2 (\<lambda>x t. A x t \<and> (B x \<longrightarrow> C x t)) xs ts" and "\<forall>x \<in> set xs. B x"
  shows "list_all2 C xs ts"
  using assms by (induction rule: list_all2_induct) simp_all

lemma deep_agree:
  assumes "deep s v t"
    and R: "\<And>a. a \<in> R \<Longrightarrow> a < next_free s \<Longrightarrow>
              a < next_free s' \<and> objs s' a = objs s a \<and> refs_obj (objs s a) \<subseteq> R"
    and "refs_val v \<subseteq> R"
  shows "deep s' v t"
  using assms(1,3)
proof (induction rule: deep.induct)
  case (deep_List a xs ts)
  from deep_List(4) have aR: "a \<in> R" by simp
  from R [OF aR deep_List(1)] deep_List(2)
  have a': "a < next_free s'" and o: "objs s' a = HList xs" and r: "refs_obj (HList xs) \<subseteq> R"
    by simp_all
  from r have "\<forall>x \<in> set xs. refs_val x \<subseteq> R" by (auto simp: refs_obj_def)
  with deep_List(3) have "list_all2 (deep s') xs ts" by (rule list_all2_guarded)
  with a' o show ?case by (rule deep.deep_List)
next
  case (deep_Dict a kvs ts)
  from deep_Dict(4) have aR: "a \<in> R" by simp
  from R [OF aR deep_Dict(1)] deep_Dict(2)
  have a': "a < next_free s'" and o: "objs s' a = HDict kvs" and r: "refs_obj (HDict kvs) \<subseteq> R"
    by simp_all
  from r have "\<forall>x \<in> set (map snd kvs). refs_val x \<subseteq> R" by (auto simp: refs_obj_def)
  with deep_Dict(3) have "list_all2 (deep s') (map snd kvs) ts" by (rule list_all2_guarded)
  with a' o show ?case by (rule deep.deep_Dict)
qed (auto intro: deep.intros)

lemma deep_rename:
  assumes all: "\<And>a b. m a = Some b \<Longrightarrow>
             b < next_free s' \<and> objs s' b = rename_obj m (objs s a) \<and> refs_obj (objs s a) \<subseteq> dom m"
    and "deep s v t" and "refs_val v \<subseteq> dom m"
  shows "deep s' (rename m v) t"
  using assms(2,3)
proof (induction rule: deep.induct)
  case (deep_List a xs ts)
  from deep_List(4) obtain b where b: "m a = Some b" by auto
  from all [OF b] deep_List(2)
  have b': "b < next_free s'" and o: "objs s' b = HList (map (rename m) xs)"
    and r: "refs_obj (HList xs) \<subseteq> dom m"
    by (simp_all add: rename_obj_def)
  from r have "\<forall>x \<in> set xs. refs_val x \<subseteq> dom m" by (auto simp: refs_obj_def)
  with deep_List(3) have "list_all2 (\<lambda>x t. deep s' (rename m x) t) xs ts"
    by (rule list_all2_guarded)
  then have "list_all2 (deep s') (map (rename m) xs) ts" by (simp add: list_all2_map1)
  with b' o have "deep s' (VRef b) (PyList ts)" by (rule deep.deep_List)
  with b show ?case by simp
next
  case (deep_Dict a kvs ts)
  from deep_Dict(4) obtain b where b: "m a = Some b" by auto
  let ?kvs' = "zip (map fst kvs) (map (rename m) (map snd kvs))"
  from all [OF b] deep_Dict(2)
  have b': "b < next_free s'" and o: "objs s' b = HDict ?kvs'"
    and r: "refs_obj (HDict kvs) \<subseteq> dom m"
    by (simp_all add: rename_obj_def)
  have f: "map fst ?kvs' = map fst kvs" and sn: "map snd ?kvs' = map (rename m) (map snd kvs)"
    by simp_all
  from r have "\<forall>x \<in> set (map snd kvs). refs_val x \<subseteq> dom m" by (auto simp: refs_obj_def)
  with deep_Dict(3) have "list_all2 (\<lambda>x t. deep s' (rename m x) t) (map snd kvs) ts"
    by (rule list_all2_guarded)
  then have "list_all2 (deep s') (map (rename m) (map snd kvs)) ts"
    by (simp add: list_all2_map1)
  with sn have "list_all2 (deep s') (map snd ?kvs') ts" by simp
  with b' o have "deep s' (VRef b) (PyDict (zip (map fst ?kvs') ts))" by (rule deep.deep_Dict)
  with b f show ?case by simp
qed (auto intro: deep.intros)

subsection \<open>The decoding in a store and the decoding of values\<close>

text \<open>
  Subscript, \<^verbatim>\<open>get\<close>, \<^verbatim>\<open>tuple\<close> and the constructor call in a store raise what they
  raise on the JSON value that their argument stands for, and return values that stand for
  what they return there.
\<close>

lemma map_of_zip_rel:
  assumes "list_all2 P (map snd kvs) ts"
  shows "rel_option P (map_of kvs k) (map_of (zip (map fst kvs) ts) k)"
  using assms
proof (induction kvs arbitrary: ts)
  case Nil
  then show ?case by simp
next
  case (Cons kv kvs)
  then obtain t ts' where "ts = t # ts'" "P (snd kv) t" "list_all2 P (map snd kvs) ts'"
    by (auto simp: list_all2_Cons1)
  with Cons.IH [of ts'] show ?case by (cases kv) simp
qed

lemma getitem_refines:
  assumes "deep s cp t"
  shows "rel_sum (=) (deep s) (getitem_st s cp k :: 'e error + val) (getitem t k)"
  using assms
proof (cases rule: deep.cases)
  case (deep_Dict a kvs ts)
  from map_of_zip_rel [OF deep_Dict(5), of k] deep_Dict show ?thesis
    by (auto simp: option_rel_Some1 split: option.splits elim!: option.rel_cases)
qed simp_all

lemma dict_get_refines:
  assumes "deep s cp t"
  shows "rel_sum (=) (deep s) (dict_get_st s cp k :: 'e error + val) (dict_get t k)"
  using assms
proof (cases rule: deep.cases)
  case (deep_Dict a kvs ts)
  from map_of_zip_rel [OF deep_Dict(5), of k] deep_Dict show ?thesis
    by (auto split: option.splits elim!: option.rel_cases intro: deep.intros)
qed simp_all

lemma tuple_refines:
  assumes "deep s k t"
  shows "rel_sum (=) (list_all2 (deep s)) (tuple_st s k :: 'e error + val list) (tuple t)"
  using assms
proof (cases rule: deep.cases)
  case (deep_Str str)
  then show ?thesis by (simp add: list_all2_conv_all_nth deep.intros)
next
  case (deep_Dict a kvs ts)
  then have "length ts = length kvs" by (auto dest: list_all2_lengthD)
  with deep_Dict show ?thesis
    by (simp add: list_all2_conv_all_nth deep.intros)
qed simp_all

lemma construct_refines:
  assumes "deep s cp t"
  shows "rel_sum (=) (same_dataset s)
           (construct s u cp :: 'e error + ('i, val) UnifiedDataset) (construct_value u t)"
proof -
  note g = getitem_refines [OF assms, where 'e = 'e]
  note d = dict_get_refines [OF assms, where 'e = 'e]
  show ?thesis
  proof (cases "getitem t ''name'' :: 'e error + pyval")
    case (Inl e)
    with g [of "''name''"] show ?thesis
      by (auto simp: construct_def construct_value_def elim!: rel_sum.cases)
  next
    case n: (Inr tn)
    with g [of "''name''"] obtain vn where vn: "(getitem_st s cp ''name'' :: 'e error + val) = Inr vn"
      "deep s vn tn" by (auto elim!: rel_sum.cases)
    show ?thesis
    proof (cases "dict_get t ''description'' :: 'e error + pyval")
      case (Inl e)
      with d [of "''description''"] n vn show ?thesis
        by (auto simp: construct_def construct_value_def elim!: rel_sum.cases)
    next
      case dd: (Inr td)
      with d [of "''description''"] obtain vd where
        vd: "(dict_get_st s cp ''description'' :: 'e error + val) = Inr vd" "deep s vd td"
        by (auto elim!: rel_sum.cases)
      show ?thesis
      proof (cases "getitem t ''keyAttributeNames'' :: 'e error + pyval")
        case (Inl e)
        with g [of "''keyAttributeNames''"] n vn dd vd show ?thesis
          by (auto simp: construct_def construct_value_def elim!: rel_sum.cases)
      next
        case k: (Inr tk)
        with g [of "''keyAttributeNames''"] obtain vk where
          vk: "(getitem_st s cp ''keyAttributeNames'' :: 'e error + val) = Inr vk" "deep s vk tk"
          by (auto elim!: rel_sum.cases)
        from tuple_refines [OF vk(2), where 'e = 'e] n vn dd vd k vk show ?thesis
          by (auto simp: construct_def construct_value_def same_dataset_def
              elim!: rel_sum.cases)
      qed
    qed
  qed
qed

lemma from_json_st_eq:
  "from_json_st fuel u data s =
     (case deepcopy_st fuel data (s, Map.empty) of
        None \<Rightarrow> None
      | Some (cp, s', m) \<Rightarrow> Some (construct s' u cp, s'))"
  by (simp add: from_json_st_def construct_def split: option.splits)

subsection \<open>The objects a returned dataset refers to\<close>

lemma refs_rename: "refs_val v \<subseteq> dom m \<Longrightarrow> refs_val (rename m v) \<subseteq> ran m"
  by (cases v) (auto simp: ran_def split: option.splits)

lemma refs_rename_obj:
  assumes "refs_obj x \<subseteq> dom m"
  shows "refs_obj (rename_obj m x) \<subseteq> ran m"
proof -
  have e: "elems (rename_obj m x) = map (rename m) (elems x)"
    by (cases x) (simp_all add: rename_obj_def)
  have "refs_val (rename m v) \<subseteq> ran m" if "v \<in> set (elems x)" for v
  proof (rule refs_rename)
    from that assms show "refs_val v \<subseteq> dom m" by (auto simp: refs_obj_def)
  qed
  then show ?thesis by (auto simp: refs_obj_def e)
qed

lemma map_of_elems: "map_of kvs k = Some v \<Longrightarrow> v \<in> set (elems (HDict kvs))"
  by (induction kvs) (auto split: if_splits)

lemma elem_refs: "v \<in> set (elems x) \<Longrightarrow> refs_val v \<subseteq> refs_obj x"
  by (auto simp: refs_obj_def)

lemma closed_set_elem:
  "closed_set R s \<Longrightarrow> a \<in> R \<Longrightarrow> v \<in> set (elems (objs s a)) \<Longrightarrow> refs_val v \<subseteq> R"
  using elem_refs [of v "objs s a"] by (auto simp: closed_set_def)

lemma getitem_st_refs:
  assumes "closed_set R s" and "refs_val cp \<subseteq> R" and "(getitem_st s cp k :: 'e error + val) = Inr v"
  shows "refs_val v \<subseteq> R"
proof (cases cp)
  case (VRef a)
  with assms(3) obtain kvs where o: "objs s a = HDict kvs" and m: "map_of kvs k = Some v"
    by (auto split: hobj.splits option.splits)
  from map_of_elems [OF m] o have "v \<in> set (elems (objs s a))" by simp
  moreover from assms(2) VRef have "a \<in> R" by simp
  ultimately show ?thesis using assms(1) by (auto dest: closed_set_elem)
qed (use assms(3) in simp_all)

lemma dict_get_st_refs:
  assumes "closed_set R s" and "refs_val cp \<subseteq> R" and "(dict_get_st s cp k :: 'e error + val) = Inr v"
  shows "refs_val v \<subseteq> R"
proof (cases cp)
  case (VRef a)
  with assms(3) obtain kvs where o: "objs s a = HDict kvs"
    and m: "v = (case map_of kvs k of None \<Rightarrow> VNone | Some w \<Rightarrow> w)"
    by (auto split: hobj.splits)
  show ?thesis
  proof (cases "map_of kvs k")
    case None
    with m show ?thesis by simp
  next
    case (Some w)
    with m have "map_of kvs k = Some v" by simp
    from map_of_elems [OF this] o have "v \<in> set (elems (objs s a))" by simp
    moreover from assms(2) VRef have "a \<in> R" by simp
    ultimately show ?thesis using assms(1) by (auto dest: closed_set_elem)
  qed
qed (use assms(3) in simp_all)

lemma tuple_st_refs:
  assumes "closed_set R s" and "refs_val k \<subseteq> R" and "(tuple_st s k :: 'e error + val list) = Inr vs"
  shows "\<forall>v \<in> set vs. refs_val v \<subseteq> R"
proof (cases k)
  case (VRef a)
  from assms(2) VRef have aR: "a \<in> R" by simp
  show ?thesis
  proof (cases "objs s a")
    case (HList xs)
    with assms(3) VRef have "vs = elems (objs s a)" by simp
    with assms(1) aR show ?thesis by (auto dest: closed_set_elem)
  next
    case (HDict kvs)
    with assms(3) VRef show ?thesis by auto
  qed
qed (use assms(3) in auto)

lemma construct_refs:
  assumes c: "closed_set R s" and r: "refs_val cp \<subseteq> R"
    and "(construct s u cp :: 'e error + ('i, val) UnifiedDataset) = Inr ds"
  shows "\<forall>v \<in> set (field_values ds). refs_val v \<subseteq> R"
proof -
  from assms(3) obtain n d k ks where
    n: "(getitem_st s cp ''name'' :: 'e error + val) = Inr n"
    and d: "(dict_get_st s cp ''description'' :: 'e error + val) = Inr d"
    and k: "(getitem_st s cp ''keyAttributeNames'' :: 'e error + val) = Inr k"
    and ks: "(tuple_st s k :: 'e error + val list) = Inr ks"
    and ds: "ds = \<lparr>url = u, name = n, key_attribute_names = ks, description = d\<rparr>"
    by (auto simp: construct_def split: sum.splits)
  from getitem_st_refs [OF c r n] have 1: "refs_val n \<subseteq> R" .
  from dict_get_st_refs [OF c r d] have 2: "refs_val d \<subseteq> R" .
  from getitem_st_refs [OF c r k] have "refs_val k \<subseteq> R" .
  from tuple_st_refs [OF c this ks] have 3: "\<forall>v \<in> set ks. refs_val v \<subseteq> R" .
  from 1 2 3 show ?thesis by (simp add: ds field_values_def)
qed

text \<open>The two uses: the objects that existed before a call, and the objects of a copy.\<close>

lemma deep_old:
  assumes "well_formed s" and "next_free s \<le> next_free s'"
    and "\<forall>a < next_free s. objs s' a = objs s a" and "refs_val v \<subseteq> {..< next_free s}"
  shows "deep s' v t = deep s v t"
proof
  assume "deep s' v t"
  then show "deep s v t"
    by (rule deep_agree [where R = "{..< next_free s}"]) (use assms in \<open>auto simp: well_formed_def\<close>)
next
  assume "deep s v t"
  then show "deep s' v t"
    by (rule deep_agree [where R = "{..< next_free s}"]) (use assms in \<open>auto simp: well_formed_def\<close>)
qed

lemma deep_closed_set:
  assumes "closed_set R s" and "\<forall>b \<in> R. objs s' b = objs s b" and "next_free s \<le> next_free s'"
    and "refs_val v \<subseteq> R"
  shows "deep s' v t = deep s v t"
proof
  assume "deep s' v t"
  then show "deep s v t"
    by (rule deep_agree [where R = R]) (use assms in \<open>auto simp: closed_set_def\<close>)
next
  assume "deep s v t"
  then show "deep s' v t"
    by (rule deep_agree [where R = R]) (use assms in \<open>fastforce simp: closed_set_def\<close>, use assms in simp)
qed

lemma well_formed_during: "well_formed s \<Longrightarrow> during s (s, Map.empty)"
  by (simp add: well_formed_def during_def copying_def)

lemma extends_empty:
  assumes "extends L (s, Map.empty) (s', m)"
  shows "next_free s \<le> next_free s'" and "\<forall>a < next_free s. objs s' a = objs s a"
    and "dom m \<subseteq> {..< L}"
    and "\<And>a b. m a = Some b \<Longrightarrow> next_free s \<le> b \<and> b < next_free s' \<and>
           objs s' b = rename_obj m (objs s a) \<and> refs_obj (objs s a) \<subseteq> dom m"
  using assms unfolding extends_def by simp_all

lemma deepcopy_top:
  assumes d: "deep s0 data t" and du: "during s0 (s, Map.empty)"
    and dc: "deepcopy_st fuel data (s, Map.empty) = Some (cp, s', m)"
  shows "deep s' cp t" and "refs_val cp \<subseteq> ran m" and "closed_set (ran m) s'"
    and "ran m \<subseteq> {next_free s ..< next_free s'}"
    and "next_free s \<le> next_free s'" and "\<forall>a < next_free s. objs s' a = objs s a"
proof -
  let ?L = "next_free s0"
  from du have c: "copying ?L (s, Map.empty)" and ag: "\<forall>a < ?L. objs s a = objs s0 a"
    by (simp_all add: during_def)
  from d have rd: "refs_val data \<subseteq> {..< ?L}" by (rule deep_refs)
  from deepcopy_spec [OF c rd dc]
  have e: "extends ?L (s, Map.empty) (s', m)" and rm: "refs_val data \<subseteq> dom m"
    and cp: "cp = rename m data"
    by simp_all
  note nx = extends_empty(1) [OF e] and fr = extends_empty(2) [OF e]
    and dm = extends_empty(3) [OF e] and new = extends_empty(4) [OF e]
  show "next_free s \<le> next_free s'" by (rule nx)
  show "\<forall>a < next_free s. objs s' a = objs s a" by (rule fr)
  have new0: "b < next_free s' \<and> objs s' b = rename_obj m (objs s0 a) \<and>
      refs_obj (objs s0 a) \<subseteq> dom m" if h: "m a = Some b" for a b
  proof -
    from h have "a \<in> dom m" by (simp add: domI)
    with dm have "a < ?L" by blast
    with ag have "objs s a = objs s0 a" by simp
    with new [OF h] show ?thesis by simp
  qed
  have "deep s' (rename m data) t"
    using new0 d rm by (rule deep_rename)
  with cp show "deep s' cp t" by simp
  from refs_rename [OF rm] cp show "refs_val cp \<subseteq> ran m" by simp
  show "closed_set (ran m) s'"
    unfolding closed_set_def
  proof
    fix b assume "b \<in> ran m"
    then obtain a where a: "m a = Some b" by (auto simp: ran_def)
    from new [OF a] have 1: "b < next_free s'" and 2: "objs s' b = rename_obj m (objs s a)"
      and 3: "refs_obj (objs s a) \<subseteq> dom m" by simp_all
    from refs_rename_obj [OF 3] 2 have "refs_obj (objs s' b) \<subseteq> ran m" by simp
    with 1 show "b < next_free s' \<and> refs_obj (objs s' b) \<subseteq> ran m" by simp
  qed
  show "ran m \<subseteq> {next_free s ..< next_free s'}"
  proof
    fix b assume "b \<in> ran m"
    then obtain a where a: "m a = Some b" by (auto simp: ran_def)
    from new [OF a] show "b \<in> {next_free s ..< next_free s'}" by simp
  qed
qed

subsection \<open>One call of \<open>from_json_st\<close>\<close>

lemma from_json_st_SomeD:
  fixes u :: "'i URL"
  assumes "(from_json_st fuel u data s :: (('e error + ('i, val) UnifiedDataset) \<times> store) option)
              = Some (res, s')"
  shows "\<exists>cp m. deepcopy_st fuel data (s, Map.empty) = Some (cp, s', m) \<and> res = construct s' u cp"
  using assms by (auto simp: from_json_st_eq split: option.splits)

lemma from_json_st_returns:
  fixes u :: "'i URL"
  assumes d: "deep s0 data t" and du: "during s0 (s, Map.empty)"
  shows "\<exists>N res s'. \<forall>fuel \<ge> N.
           (from_json_st fuel u data s :: (('e error + ('i, val) UnifiedDataset) \<times> store) option)
             = Some (res, s')"
proof -
  from deepcopy_terminates [OF d] du obtain N r where
    r: "deepcopy_st N data (s, Map.empty) = Some r" by blast
  obtain cp s' m where r': "r = (cp, s', m)" by (cases r)
  have "(from_json_st fuel u data s :: (('e error + ('i, val) UnifiedDataset) \<times> store) option)
             = Some (construct s' u cp, s')" if "N \<le> fuel" for fuel
  proof -
    from that r have "deepcopy_st fuel data (s, Map.empty) = Some r" by (rule deepcopy_st_mono)
    then show ?thesis by (simp add: from_json_st_eq r')
  qed
  then show ?thesis by blast
qed

lemma same_dataset_fields:
  "same_dataset s ds dt \<Longrightarrow> list_all2 (deep s) (field_values ds) (name dt # description dt # key_attribute_names dt)"
  by (simp add: same_dataset_def field_values_def)

lemma list_all2_py_eq:
  assumes "list_all2 (deep s) xs ts" and "list_all2 (deep s) ys ts"
  shows "list_all2 (py_eq s) xs ys"
  using assms
  by (fastforce simp: list_all2_conv_all_nth py_eq_def)

lemma deep_PyNone: "deep s v PyNone \<Longrightarrow> v = VNone"
  by (erule deep.cases) simp_all

lemma tuple_error: "(tuple k :: 'e error + pyval list) = Inl e \<Longrightarrow> e = TypeError"
  by (cases k) simp_all

text \<open>
  A call in a store that still holds the objects of \<open>s0\<close>, on a value that stands for \<open>t\<close>
  there: the store grows, no object is changed, the result is that of the constructor call on
  \<open>t\<close>, read through \<open>deep\<close>, and the fields of a returned dataset refer to a closed set of
  objects that the call allocated.
\<close>

lemma from_json_st_facts:
  fixes u :: "'i URL"
  assumes d: "deep s0 data t" and du: "during s0 (s, Map.empty)"
    and r: "(from_json_st fuel u data s :: (('e error + ('i, val) UnifiedDataset) \<times> store) option)
              = Some (res, s')"
  shows "next_free s \<le> next_free s'" and "\<forall>a < next_free s. objs s' a = objs s a"
    and "rel_sum (=) (same_dataset s') res (construct_value u t)"
    and "\<exists>R. closed_set R s' \<and> R \<subseteq> {next_free s ..< next_free s'} \<and>
           (\<forall>ds. res = Inr ds \<longrightarrow> (\<forall>v \<in> set (field_values ds). refs_val v \<subseteq> R))"
proof -
  from from_json_st_SomeD [OF r] obtain cp m where
    dc: "deepcopy_st fuel data (s, Map.empty) = Some (cp, s', m)" and res: "res = construct s' u cp"
    by blast
  note t = deepcopy_top [OF d du dc]
  show "next_free s \<le> next_free s'" by (rule t(5))
  show "\<forall>a < next_free s. objs s' a = objs s a" by (rule t(6))
  show "rel_sum (=) (same_dataset s') res (construct_value u t)"
    unfolding res using t(1) by (rule construct_refines)
  have "\<forall>ds. res = Inr ds \<longrightarrow> (\<forall>v \<in> set (field_values ds). refs_val v \<subseteq> ran m)"
    unfolding res using construct_refs [OF t(3) t(2)] by blast
  with t(3,4) show "\<exists>R. closed_set R s' \<and> R \<subseteq> {next_free s ..< next_free s'} \<and>
           (\<forall>ds. res = Inr ds \<longrightarrow> (\<forall>v \<in> set (field_values ds). refs_val v \<subseteq> R))"
    by blast
qed

lemma during_after:
  assumes "well_formed s" and "next_free s \<le> next_free s'"
    and "\<forall>a < next_free s. objs s' a = objs s a"
  shows "during s (s', Map.empty)"
  using assms by (simp add: well_formed_def during_def copying_def)

lemma missing_description:
  fixes u :: "'i URL"
  assumes d: "deep s (VRef a) t" and o: "objs s a = HDict kvs"
    and m: "map_of kvs ''description'' = None"
    and rel: "rel_sum (=) (same_dataset s') (res :: 'e error + ('i, val) UnifiedDataset) (construct_value u t)"
  shows "(\<forall>ds. res = Inr ds \<longrightarrow> description ds = VNone) \<and>
         (\<forall>e. res = Inl e \<longrightarrow> e = KeyError ''name'' \<or> e = KeyError ''keyAttributeNames'' \<or> e = TypeError)"
proof -
  from d o obtain ts where t: "t = PyDict (zip (map fst kvs) ts)"
    and ts: "list_all2 (deep s) (map snd kvs) ts"
    by (auto elim: deep.cases)
  from map_of_zip_rel [OF ts, of "''description''"] m
  have md: "map_of (zip (map fst kvs) ts) ''description'' = None" by simp
  show ?thesis
  proof (intro conjI allI impI)
    fix ds assume "res = Inr ds"
    with rel obtain dt where dt: "(construct_value u t :: 'e error + ('i, pyval) UnifiedDataset) = Inr dt"
      and sd: "same_dataset s' ds dt"
      by (auto elim: rel_sum.cases)
    from dt md have "description dt = PyNone"
      by (auto simp: t construct_value_dict split: option.splits sum.splits)
    with sd show "description ds = VNone" by (auto simp: same_dataset_def dest: deep_PyNone)
  next
    fix e assume "res = Inl e"
    with rel have "(construct_value u t :: 'e error + ('i, pyval) UnifiedDataset) = Inl e"
      by (auto elim: rel_sum.cases)
    then show "e = KeyError ''name'' \<or> e = KeyError ''keyAttributeNames'' \<or> e = TypeError"
      by (auto simp: t construct_value_dict split: option.splits sum.splits dest: tuple_error)
  qed
qed

text \<open>
  C10. \<open>data\<close> is a value of a store without dangling references that unfolds to a JSON
  value. Then \<open>_from_json\<close> returns for every sufficient fuel, with one result, and whenever
  it returns:
  \<^item> every object that existed before the call, the objects of \<open>data\<close> among them, is as it
    was: the argument is not mutated;
  \<^item> every field of a returned dataset has a value, and that value is the same in every later
    store in which the objects allocated by the call are as the call left them, whatever has
    become of the objects that existed before: a later mutation of the input does not reach
    the dataset;
  \<^item> when \<open>data\<close> is a dict without the key \<open>description\<close>, the description of a returned
    dataset is \<^verbatim>\<open>None\<close>, and an error, if there is one, is the \<open>KeyError\<close> of \<open>name\<close> or
    of \<open>keyAttributeNames\<close> or a \<open>TypeError\<close>: the missing description raises nothing.
\<close>

theorem from_json_st_copies_its_argument:
  fixes u :: "'i URL"
  assumes "well_formed s" and "deep s data t"
  shows "(\<exists>N res s'. \<forall>fuel \<ge> N.
            (from_json_st fuel u data s :: (('e error + ('i, val) UnifiedDataset) \<times> store) option)
              = Some (res, s')) \<and>
    (\<forall>fuel res s'.
       (from_json_st fuel u data s :: (('e error + ('i, val) UnifiedDataset) \<times> store) option)
         = Some (res, s') \<longrightarrow>
       (\<forall>a < next_free s. objs s' a = objs s a) \<and>
       (\<forall>ds. res = Inr ds \<longrightarrow>
          (\<forall>v \<in> set (field_values ds). \<exists>tv. deep s' v tv) \<and>
          (\<forall>s''. next_free s' \<le> next_free s'' \<and>
                 (\<forall>b. next_free s \<le> b \<and> b < next_free s' \<longrightarrow> objs s'' b = objs s' b) \<longrightarrow>
                 (\<forall>v \<in> set (field_values ds). \<forall>tv. deep s'' v tv = deep s' v tv))) \<and>
       (\<forall>a kvs. data = VRef a \<and> objs s a = HDict kvs \<and> map_of kvs ''description'' = None \<longrightarrow>
          (\<forall>ds. res = Inr ds \<longrightarrow> description ds = VNone) \<and>
          (\<forall>e. res = Inl e \<longrightarrow>
             e = KeyError ''name'' \<or> e = KeyError ''keyAttributeNames'' \<or> e = TypeError)))"
proof -
  from assms(1) have du: "during s (s, Map.empty)" by (rule well_formed_during)
  have ret: "\<exists>N res s'. \<forall>fuel \<ge> N.
            (from_json_st fuel u data s :: (('e error + ('i, val) UnifiedDataset) \<times> store) option)
              = Some (res, s')"
    using assms(2) du by (rule from_json_st_returns)
  have run: "(\<forall>a < next_free s. objs s' a = objs s a) \<and>
       (\<forall>ds. res = Inr ds \<longrightarrow>
          (\<forall>v \<in> set (field_values ds). \<exists>tv. deep s' v tv) \<and>
          (\<forall>s''. next_free s' \<le> next_free s'' \<and>
                 (\<forall>b. next_free s \<le> b \<and> b < next_free s' \<longrightarrow> objs s'' b = objs s' b) \<longrightarrow>
                 (\<forall>v \<in> set (field_values ds). \<forall>tv. deep s'' v tv = deep s' v tv))) \<and>
       (\<forall>a kvs. data = VRef a \<and> objs s a = HDict kvs \<and> map_of kvs ''description'' = None \<longrightarrow>
          (\<forall>ds. res = Inr ds \<longrightarrow> description ds = VNone) \<and>
          (\<forall>e. res = Inl e \<longrightarrow>
             e = KeyError ''name'' \<or> e = KeyError ''keyAttributeNames'' \<or> e = TypeError))"
    if r: "from_json_st fuel u data s = Some (res, s')"
    for fuel s' and res :: "'e error + ('i, val) UnifiedDataset"
  proof (intro conjI allI impI ballI)
    note f = from_json_st_facts [OF assms(2) du r]
    show "\<And>a. a < next_free s \<Longrightarrow> objs s' a = objs s a" using f(2) by simp
    {
      fix ds assume ds: "res = Inr ds"
      from f(4) ds obtain R where cl: "closed_set R s'" and R: "R \<subseteq> {next_free s ..< next_free s'}"
        and fr: "\<forall>v \<in> set (field_values ds). refs_val v \<subseteq> R" by blast
      from f(3) ds obtain dt where sd: "same_dataset s' ds dt" by (auto elim: rel_sum.cases)
      from same_dataset_fields [OF sd]
      show "\<And>v. v \<in> set (field_values ds) \<Longrightarrow> \<exists>tv. deep s' v tv"
        by (auto simp: list_all2_conv_all_nth in_set_conv_nth)
      fix s'' :: store and v tv
      assume s'': "next_free s' \<le> next_free s'' \<and>
                   (\<forall>b. next_free s \<le> b \<and> b < next_free s' \<longrightarrow> objs s'' b = objs s' b)"
        and v: "v \<in> set (field_values ds)"
      from s'' R have "\<forall>b \<in> R. objs s'' b = objs s' b" by auto
      with cl show "deep s'' v tv = deep s' v tv"
        using s'' fr v by (intro deep_closed_set) auto
    }
    {
      fix a kvs
      assume h: "data = VRef a \<and> objs s a = HDict kvs \<and> map_of kvs ''description'' = None"
      from assms(2) h have d: "deep s (VRef a) t" by simp
      from h have o: "objs s a = HDict kvs" and m: "map_of kvs ''description'' = None" by simp_all
      note md = missing_description [OF d o m f(3)]
      show "\<And>ds. res = Inr ds \<Longrightarrow> description ds = VNone" using md by blast
      show "\<And>e. res = Inl e \<Longrightarrow>
               e = KeyError ''name'' \<or> e = KeyError ''keyAttributeNames'' \<or> e = TypeError"
        using md by blast
    }
  qed
  from ret run show ?thesis by blast
qed

lemma list_all2_deep_transfer:
  assumes "list_all2 (deep s1) xs ts" and "\<forall>x \<in> set xs. \<forall>t. deep s2 x t = deep s1 x t"
  shows "list_all2 (deep s2) xs ts"
  using assms by (induction rule: list_all2_induct) simp_all

text \<open>
  C7. \<open>data\<close> is a value of a store without dangling references that unfolds to a JSON
  value, and decoding it has returned the dataset \<open>ds1\<close>. Then decoding it again, in the
  store the first call left, returns for every sufficient fuel, and whenever it returns it
  returns a dataset that is equal to \<open>ds1\<close>: the same URL, and fields that unfold to the same
  values, although the two datasets are built from different objects.
\<close>

theorem from_json_st_twice_equal:
  fixes u :: "'i URL"
  assumes "well_formed s" and "deep s data t"
    and "(from_json_st n1 u data s :: (('e error + ('i, val) UnifiedDataset) \<times> store) option)
           = Some (Inr ds1, s1)"
  shows "(\<exists>N r2 s2. \<forall>n2 \<ge> N.
            (from_json_st n2 u data s1 :: (('e error + ('i, val) UnifiedDataset) \<times> store) option)
              = Some (r2, s2)) \<and>
         (\<forall>n2 r2 s2.
            (from_json_st n2 u data s1 :: (('e error + ('i, val) UnifiedDataset) \<times> store) option)
              = Some (r2, s2) \<longrightarrow>
            (\<exists>ds2. r2 = Inr ds2 \<and> equal_datasets s2 ds1 ds2))"
proof -
  from assms(1) have du: "during s (s, Map.empty)" by (rule well_formed_during)
  note f1 = from_json_st_facts [OF assms(2) du assms(3)]
  from assms(1) f1(1,2) have du1: "during s (s1, Map.empty)" by (rule during_after)
  have ret: "\<exists>N r2 s2. \<forall>n2 \<ge> N.
            (from_json_st n2 u data s1 :: (('e error + ('i, val) UnifiedDataset) \<times> store) option)
              = Some (r2, s2)"
    using assms(2) du1 by (rule from_json_st_returns)
  have eq: "\<exists>ds2. r2 = Inr ds2 \<and> equal_datasets s2 ds1 ds2"
    if c2: "from_json_st n2 u data s1 = Some (r2, s2)"
    for n2 s2 and r2 :: "'e error + ('i, val) UnifiedDataset"
  proof -
    note f2 = from_json_st_facts [OF assms(2) du1 c2]
    from f1(3) obtain dt where dt: "(construct_value u t :: 'e error + ('i, pyval) UnifiedDataset) = Inr dt"
      and sd1: "same_dataset s1 ds1 dt" by (auto elim: rel_sum.cases)
    from f2(3) dt obtain ds2 where ds2: "r2 = Inr ds2" and sd2: "same_dataset s2 ds2 dt"
      by (auto elim: rel_sum.cases)
    from f1(4) obtain R where cl: "closed_set R s1" and R: "R \<subseteq> {next_free s ..< next_free s1}"
      and fr: "\<forall>v \<in> set (field_values ds1). refs_val v \<subseteq> R" by blast
    from R f2(2) have ag: "\<forall>b \<in> R. objs s2 b = objs s1 b" by auto
    have "deep s2 v tv = deep s1 v tv" if "v \<in> set (field_values ds1)" for v tv
      by (rule deep_closed_set [OF cl ag f2(1)]) (use fr that in blast)
    then have "\<forall>v \<in> set (field_values ds1). \<forall>tv. deep s2 v tv = deep s1 v tv" by blast
    with same_dataset_fields [OF sd1]
    have "list_all2 (deep s2) (field_values ds1) (name dt # description dt # key_attribute_names dt)"
      by (rule list_all2_deep_transfer)
    from this same_dataset_fields [OF sd2]
    have "list_all2 (py_eq s2) (field_values ds1) (field_values ds2)" by (rule list_all2_py_eq)
    moreover from sd1 sd2 have "url ds1 = url ds2" by (simp add: same_dataset_def)
    ultimately show ?thesis using ds2 by (simp add: equal_datasets_def)
  qed
  from ret eq show ?thesis by blast
qed

subsection \<open>Snapshots as objects\<close>

lemma poll_obj_cases:
  assumes "poll_obj successful str session a h = (res, session', h')"
  shows "length (sent session') = length (sent session) + 1 \<and>
         ((\<exists>e. res = Inl e \<and> h' = h) \<or>
          (\<exists>op'. res = Inr (length (operation_objs h)) \<and>
                 h' = h\<lparr>operation_objs := operation_objs h @ [op']\<rparr>))"
proof -
  obtain r s1 where p: "poll successful str session (operation_objs h ! a) = (r, s1)"
    by (cases "poll successful str session (operation_objs h ! a)")
  from poll_session [OF p] have "length (sent s1) = length (sent session) + 1" by simp
  with assms p show ?thesis
    by (cases r) (auto simp: poll_obj_def new_operation_def)
qed

lemma wait_obj_frame:
  fixes successful :: "'e Response \<Rightarrow> 'e + 'e Response" and h :: "'i instances"
  assumes "wait_obj successful str session a h = Some y"
  shows "a < length (operation_objs h) \<longrightarrow> follow_frame session a h y"
proof (rule wait_obj.raw_induct [where P = "\<lambda>successful str session a h y.
         a < length (operation_objs h) \<longrightarrow> follow_frame session a h y", OF _ assms])
  fix f :: "('e Response \<Rightarrow> 'e + 'e Response) \<Rightarrow> ('i URL \<Rightarrow> string) \<Rightarrow> 'e Session \<Rightarrow> nat \<Rightarrow> 'i instances
     \<Rightarrow> (('e error + nat) \<times> 'e Session \<times> 'i instances) option"
    and successful str session a h y
  assume IH: "\<And>successful str session a h y. f successful str session a h = Some y \<Longrightarrow>
         a < length (operation_objs h) \<longrightarrow> follow_frame session a h y"
    and eq: "(if is_terminal (operation_objs h ! a) then Some (Inr a, session, h)
      else (case poll_obj successful str session a h of
              (res, session', h') \<Rightarrow>
                (case res of
                   Inl e \<Rightarrow> Some (Inl e, session', h')
                 | Inr b \<Rightarrow> f successful str session' b h'))) = Some y"
  show "a < length (operation_objs h) \<longrightarrow> follow_frame session a h y"
  proof
    assume a: "a < length (operation_objs h)"
    show "follow_frame session a h y"
    proof (cases "is_terminal (operation_objs h ! a)")
      case True
      with eq a show ?thesis by (auto simp: follow_frame_def)
    next
      case False
      obtain res s1 h1 where p: "poll_obj successful str session a h = (res, s1, h1)"
        by (cases "poll_obj successful str session a h")
      note c = poll_obj_cases [OF p]
      show ?thesis
      proof (cases res)
        case (Inl e)
        with eq False p have "y = (Inl e, s1, h1)" by simp
        with c Inl show ?thesis by (auto simp: follow_frame_def)
      next
        case (Inr b)
        with eq False p have r: "f successful str s1 b h1 = Some y" by simp
        from c Inr obtain op' where b: "b = length (operation_objs h)"
          and h1: "h1 = h\<lparr>operation_objs := operation_objs h @ [op']\<rparr>" by auto
        from b h1 have "b < length (operation_objs h1)" by simp
        with IH [OF r] have ff: "follow_frame s1 b h1 y" by blast
        obtain r2 s2 h2 where y: "y = (r2, s2, h2)" by (cases y)
        from ff obtain new where d2: "dataset_objs h2 = dataset_objs h1"
          and n: "operation_objs h2 = operation_objs h1 @ new"
          and k: "(case r2 of
              Inl e \<Rightarrow> length (sent s2) = length (sent s1) + length new + 1
            | Inr b' \<Rightarrow>
                length (sent s2) = length (sent s1) + length new \<and>
                b' < length (operation_objs h2) \<and> is_terminal (operation_objs h2 ! b') \<and>
                (if new = [] then b' = b else b' = length (operation_objs h1) + length new - 1))"
          unfolding y follow_frame_def by auto
        from c have l: "length (sent s1) = length (sent session) + 1" by simp
        have d: "dataset_objs h2 = dataset_objs h" using d2 h1 by simp
        have n': "operation_objs h2 = operation_objs h @ (op' # new)" using n h1 by simp
        have "case r2 of
              Inl e \<Rightarrow> length (sent s2) = length (sent session) + length (op' # new) + 1
            | Inr b' \<Rightarrow>
                length (sent s2) = length (sent session) + length (op' # new) \<and>
                b' < length (operation_objs h2) \<and> is_terminal (operation_objs h2 ! b') \<and>
                (if op' # new = [] then b' = a
                 else b' = length (operation_objs h) + length (op' # new) - 1)"
        proof (cases r2)
          case (Inl e)
          with k l show ?thesis by simp
        next
          case (Inr b')
          with k l b h1 show ?thesis by (cases "new = []") auto
        qed
        with d n' show ?thesis unfolding y follow_frame_def by blast
      qed
    qed
  qed
qed


lemma wait_obj_terminal:
  "is_terminal (operation_objs h ! a) \<Longrightarrow>
   wait_obj successful str session a h = Some (Inr a, session, h)"
  by (subst wait_obj.simps) simp

lemma wait_obj_error:
  "\<not> is_terminal (operation_objs h ! a) \<Longrightarrow>
   poll successful str session (operation_objs h ! a) = (Inl e, session') \<Longrightarrow>
   wait_obj successful str session a h = Some (Inl e, session', h)"
  by (subst wait_obj.simps) (simp add: poll_obj_def)

lemma wait_obj_step:
  "\<not> is_terminal (operation_objs h ! a) \<Longrightarrow>
   poll successful str session (operation_objs h ! a) = (Inr op', session') \<Longrightarrow>
   wait_obj successful str session a h =
     wait_obj successful str session' (length (operation_objs h))
       (h\<lparr>operation_objs := operation_objs h @ [op']\<rparr>)"
  by (subst wait_obj.simps) (simp add: poll_obj_def new_operation_def)

lemma wait_obj_follows_wait:
  fixes successful :: "'e Response \<Rightarrow> 'e + 'e Response" and op :: "'i Operation"
  assumes "wait successful str session op = Some y"
  shows "\<forall>h a. a < length (operation_objs h) \<and> operation_objs h ! a = op \<longrightarrow>
           (\<exists>res h'. wait_obj successful str session a h = Some (res, snd y, h') \<and>
                      fst y = map_sum id (nth (operation_objs h')) res)"
proof (rule wait.raw_induct [where P = "\<lambda>successful str session op y.
         \<forall>h a. a < length (operation_objs h) \<and> operation_objs h ! a = op \<longrightarrow>
           (\<exists>res h'. wait_obj successful str session a h = Some (res, snd y, h') \<and>
                      fst y = map_sum id (nth (operation_objs h')) res)", OF _ assms])
  fix f :: "('e Response \<Rightarrow> 'e + 'e Response) \<Rightarrow> ('i URL \<Rightarrow> string) \<Rightarrow> 'e Session \<Rightarrow> 'i Operation
     \<Rightarrow> (('e error + 'i Operation) \<times> 'e Session) option"
    and successful str session op y
  assume IH: "\<And>successful str session op y. f successful str session op = Some y \<Longrightarrow>
         \<forall>h a. a < length (operation_objs h) \<and> operation_objs h ! a = op \<longrightarrow>
           (\<exists>res h'. wait_obj successful str session a h = Some (res, snd y, h') \<and>
                      fst y = map_sum id (nth (operation_objs h')) res)"
    and eq: "(if is_terminal op then Some (Inr op, session)
      else (case poll successful str session op of
              (res, session') \<Rightarrow>
                (case res of
                   Inl e \<Rightarrow> Some (Inl e, session')
                 | Inr op' \<Rightarrow> f successful str session' op'))) = Some y"
  show "\<forall>h a. a < length (operation_objs h) \<and> operation_objs h ! a = op \<longrightarrow>
           (\<exists>res h'. wait_obj successful str session a h = Some (res, snd y, h') \<and>
                      fst y = map_sum id (nth (operation_objs h')) res)"
  proof (intro allI impI)
    fix h :: "'i instances" and a
    assume a: "a < length (operation_objs h) \<and> operation_objs h ! a = op"
    show "\<exists>res h'. wait_obj successful str session a h = Some (res, snd y, h') \<and>
                      fst y = map_sum id (nth (operation_objs h')) res"
    proof (cases "is_terminal op")
      case True
      with eq have y: "y = (Inr op, session)" by simp
      from True a have "wait_obj successful str session a h = Some (Inr a, session, h)"
        by (simp add: wait_obj_terminal)
      with y a show ?thesis by simp
    next
      case False
      obtain r s1 where p: "poll successful str session op = (r, s1)"
        by (cases "poll successful str session op")
      show ?thesis
      proof (cases r)
        case (Inl e)
        with eq False p have y: "y = (Inl e, s1)" by simp
        from False a p Inl have "wait_obj successful str session a h = Some (Inl e, s1, h)"
          by (simp add: wait_obj_error)
        with y show ?thesis by simp
      next
        case (Inr op')
        with eq False p have r: "f successful str s1 op' = Some y" by simp
        let ?h1 = "h\<lparr>operation_objs := operation_objs h @ [op']\<rparr>"
        let ?b = "length (operation_objs h)"
        have "?b < length (operation_objs ?h1) \<and> operation_objs ?h1 ! ?b = op'" by simp
        with IH [OF r] obtain res h' where
          w: "wait_obj successful str s1 ?b ?h1 = Some (res, snd y, h')"
          and v: "fst y = map_sum id (nth (operation_objs h')) res"
          by blast
        from False a p Inr have "wait_obj successful str session a h =
            wait_obj successful str s1 ?b ?h1"
          by (simp add: wait_obj_step)
        with w v show ?thesis by simp
      qed
    qed
  qed
qed

lemma apply_changes_obj_frame:
  fixes successful :: "'e Response \<Rightarrow> 'e + 'e Response" and h :: "'i instances"
  assumes "apply_changes_obj successful str from_response session d h = Some (res, session', h')"
  shows "dataset_objs h' = dataset_objs h \<and> (\<exists>new. operation_objs h' = operation_objs h @ new)"
proof -
  obtain r1 s1 where a: "apply_changes_async str from_response session (dataset_objs h ! d) = (r1, s1)"
    by (cases "apply_changes_async str from_response session (dataset_objs h ! d)")
  show ?thesis
  proof (cases r1)
    case (Inl e)
    with assms a have "h' = h"
      by (simp add: apply_changes_obj_def apply_changes_async_obj_def)
    then show ?thesis by simp
  next
    case (Inr op)
    let ?h1 = "h\<lparr>operation_objs := operation_objs h @ [op]\<rparr>"
    let ?b = "length (operation_objs h)"
    from assms a Inr have w: "wait_obj successful str s1 ?b ?h1 = Some (res, session', h')"
      by (simp add: apply_changes_obj_def apply_changes_async_obj_def new_operation_def)
    have "?b < length (operation_objs ?h1)" by simp
    with wait_obj_frame [OF w] have "follow_frame s1 ?b ?h1 (res, session', h')" by blast
    then obtain new where "dataset_objs h' = dataset_objs ?h1"
      "operation_objs h' = operation_objs ?h1 @ new"
      by (auto simp: follow_frame_def)
    then show ?thesis by simp
  qed
qed

lemma from_json_obj_frame:
  fixes u :: "'i URL" and h :: "'i instances"
  assumes w: "well_formed s" and d: "deep s data t"
    and r: "(from_json_obj fuel u data s h :: (('e error + nat) \<times> store \<times> 'i instances) option)
              = Some (res, s', h')"
  shows "operation_objs h' = operation_objs h"
    and "\<exists>new. dataset_objs h' = dataset_objs h @ new \<and>
           (case res of Inl e \<Rightarrow> new = [] | Inr b \<Rightarrow> b = length (dataset_objs h) \<and> length new = 1)"
    and "\<forall>c < next_free s. objs s' c = objs s c"
    and "\<forall>ds0 \<in> set (dataset_objs h). \<forall>v \<in> set (field_values ds0).
           refs_val v \<subseteq> {..< next_free s} \<longrightarrow> (\<forall>tv. deep s' v tv = deep s v tv)"
    and "\<forall>b. res = Inr b \<longrightarrow>
           (\<forall>v \<in> set (field_values (dataset_objs h' ! b)).
              refs_val v \<subseteq> {next_free s ..< next_free s'})"
proof -
  from r obtain r0 where
    r0: "(from_json_st fuel u data s :: (('e error + ('i, val) UnifiedDataset) \<times> store) option)
           = Some (r0, s')"
    and c: "(case r0 of Inl e \<Rightarrow> res = Inl e \<and> h' = h
             | Inr ds \<Rightarrow> res = Inr (length (dataset_objs h)) \<and>
                 h' = h\<lparr>dataset_objs := dataset_objs h @ [ds]\<rparr>)"
    by (auto simp: from_json_obj_def new_dataset_def split: option.splits sum.splits)
  from w have du: "during s (s, Map.empty)" by (rule well_formed_during)
  note f = from_json_st_facts [OF d du r0]
  from c show "operation_objs h' = operation_objs h" by (cases r0) simp_all
  from c show "\<exists>new. dataset_objs h' = dataset_objs h @ new \<and>
           (case res of Inl e \<Rightarrow> new = [] | Inr b \<Rightarrow> b = length (dataset_objs h) \<and> length new = 1)"
    by (cases r0) simp_all
  show "\<forall>c < next_free s. objs s' c = objs s c" by (rule f(2))
  have "deep s' v tv = deep s v tv" if "refs_val v \<subseteq> {..< next_free s}" for v tv
    using w f(1) f(2) that by (rule deep_old)
  then show "\<forall>ds0 \<in> set (dataset_objs h). \<forall>v \<in> set (field_values ds0).
           refs_val v \<subseteq> {..< next_free s} \<longrightarrow> (\<forall>tv. deep s' v tv = deep s v tv)"
    by blast
  show "\<forall>b. res = Inr b \<longrightarrow>
           (\<forall>v \<in> set (field_values (dataset_objs h' ! b)).
              refs_val v \<subseteq> {next_free s ..< next_free s'})"
  proof (cases r0)
    case (Inl e)
    with c show ?thesis by simp
  next
    case (Inr ds)
    with f(4) have "\<forall>v \<in> set (field_values ds). refs_val v \<subseteq> {next_free s ..< next_free s'}"
      by blast
    with c Inr show ?thesis by simp
  qed
qed

lemma from_json_obj_returns:
  fixes u :: "'i URL" and h :: "'i instances"
  assumes w: "well_formed s" and d: "deep s data t"
  shows "\<exists>N res s' h'. \<forall>fuel \<ge> N.
           (from_json_obj fuel u data s h :: (('e error + nat) \<times> store \<times> 'i instances) option)
             = Some (res, s', h')"
proof -
  from w have du: "during s (s, Map.empty)" by (rule well_formed_during)
  from from_json_st_returns [OF d du, where 'e = 'e and u = u]
  obtain N r0 s' where
    n: "\<forall>fuel \<ge> N. (from_json_st fuel u data s :: (('e error + ('i, val) UnifiedDataset) \<times> store) option)
           = Some (r0, s')" by blast
  show ?thesis
  proof (cases r0)
    case (Inl e)
    with n have "\<forall>fuel \<ge> N. (from_json_obj fuel u data s h :: (('e error + nat) \<times> store \<times> 'i instances) option)
           = Some (Inl e, s', h)"
      by (simp add: from_json_obj_def)
    then show ?thesis by blast
  next
    case (Inr ds)
    with n have "\<forall>fuel \<ge> N. (from_json_obj fuel u data s h :: (('e error + nat) \<times> store \<times> 'i instances) option)
           = Some (Inr (length (dataset_objs h)), s', h\<lparr>dataset_objs := dataset_objs h @ [ds]\<rparr>)"
      by (simp add: from_json_obj_def new_dataset_def)
    then show ?thesis by blast
  qed
qed


text \<open>
  C8. The snapshots are instances in \<open>h\<close>, \<open>a\<close> refers to an operation among them, and
  \<open>data\<close> is a value of a store without dangling references that unfolds to a JSON value.
  \<^item> An assignment to a field of a dataset or of an operation raises \<open>FrozenInstanceError\<close>
    and leaves every instance as it was.
  \<^item> \<open>_from_json\<close> returns for every sufficient fuel. Whenever it returns, the operations
    and the datasets that existed are as they were, a returned dataset is one new instance
    after them and an exception makes none; every object of the store is as it was, so
    that every field of an earlier dataset that refers to objects of the store unfolds to
    the value it had; and the fields of the new dataset refer to objects that the call has
    allocated only.
  \<^item> Whenever the follower returns, the datasets are as they were and the operations that
    existed, the one it was started on among them, are as they were, followed by one new
    snapshot for every poll that decoded one; the snapshot it returns is terminal, and is
    the one it was given when no poll was made and the newest one otherwise.
  \<^item> The follower on references returns whenever the follower on snapshots does, with
    the same session and the snapshot or error that the latter returns.
  \<^item> Whenever \<open>apply_changes\<close> returns, the datasets, the one it was called on among them,
    and the operations that existed are as they were.
\<close>

theorem existing_snapshots_are_not_changed:
  fixes u :: "'i URL" and h :: "'i instances"
    and successful :: "'x Response \<Rightarrow> 'x + 'x Response"
    and from_response :: "'i \<Rightarrow> 'x Response \<Rightarrow> 'x error + 'i Operation"
  assumes "well_formed s" and "deep s data t" and "a < length (operation_objs h)"
  shows "(dataset_setattr h d field v :: ('y error + unit) \<times> 'i instances) =
           (Inl FrozenInstanceError, h) \<and>
         (operation_setattr h a field v :: ('y error + unit) \<times> 'i instances) =
           (Inl FrozenInstanceError, h) \<and>
         (\<exists>N res s' h'. \<forall>fuel \<ge> N.
            (from_json_obj fuel u data s h :: (('e error + nat) \<times> store \<times> 'i instances) option)
              = Some (res, s', h')) \<and>
         (\<forall>fuel res s' h'.
            (from_json_obj fuel u data s h :: (('e error + nat) \<times> store \<times> 'i instances) option)
              = Some (res, s', h') \<longrightarrow>
            operation_objs h' = operation_objs h \<and>
            (\<exists>new. dataset_objs h' = dataset_objs h @ new \<and>
               (case res of
                  Inl e \<Rightarrow> new = []
                | Inr b \<Rightarrow> b = length (dataset_objs h) \<and> length new = 1)) \<and>
            (\<forall>c < next_free s. objs s' c = objs s c) \<and>
            (\<forall>ds0 \<in> set (dataset_objs h). \<forall>v \<in> set (field_values ds0).
               refs_val v \<subseteq> {..< next_free s} \<longrightarrow> (\<forall>tv. deep s' v tv = deep s v tv)) \<and>
            (\<forall>b. res = Inr b \<longrightarrow>
               (\<forall>v \<in> set (field_values (dataset_objs h' ! b)).
                  refs_val v \<subseteq> {next_free s ..< next_free s'}))) \<and>
         (\<forall>res session' h'.
            wait_obj successful str session a h = Some (res, session', h') \<longrightarrow>
            dataset_objs h' = dataset_objs h \<and>
            (\<exists>new. operation_objs h' = operation_objs h @ new \<and>
               (case res of
                  Inl e \<Rightarrow> length (sent session') = length (sent session) + length new + 1
                | Inr b \<Rightarrow>
                    length (sent session') = length (sent session) + length new \<and>
                    b < length (operation_objs h') \<and> is_terminal (operation_objs h' ! b) \<and>
                    (if new = [] then b = a
                     else b = length (operation_objs h) + length new - 1)))) \<and>
         (\<forall>r session'.
            wait successful str session (operation_objs h ! a) = Some (r, session') \<longrightarrow>
            (\<exists>res h'. wait_obj successful str session a h = Some (res, session', h') \<and>
                       r = map_sum id (nth (operation_objs h')) res)) \<and>
         (\<forall>res session' h'.
            apply_changes_obj successful str from_response session d h = Some (res, session', h') \<longrightarrow>
            dataset_objs h' = dataset_objs h \<and>
            (\<exists>new. operation_objs h' = operation_objs h @ new))"
proof (intro conjI allI impI)
  show "(dataset_setattr h d field v :: ('y error + unit) \<times> 'i instances) =
           (Inl FrozenInstanceError, h)"
    by (simp add: dataset_setattr_def)
  show "(operation_setattr h a field v :: ('y error + unit) \<times> 'i instances) =
           (Inl FrozenInstanceError, h)"
    by (simp add: operation_setattr_def)
  show "\<exists>N res s' h'. \<forall>fuel \<ge> N.
            (from_json_obj fuel u data s h :: (('e error + nat) \<times> store \<times> 'i instances) option)
              = Some (res, s', h')"
    using assms(1,2) by (rule from_json_obj_returns)
next
  fix fuel s' h' and res :: "'e error + nat"
  assume r: "from_json_obj fuel u data s h = Some (res, s', h')"
  note f = from_json_obj_frame [OF assms(1,2) r]
  show "operation_objs h' = operation_objs h" by (rule f(1))
  show "\<exists>new. dataset_objs h' = dataset_objs h @ new \<and>
               (case res of
                  Inl e \<Rightarrow> new = []
                | Inr b \<Rightarrow> b = length (dataset_objs h) \<and> length new = 1)"
    by (rule f(2))
  show "\<And>c. c < next_free s \<Longrightarrow> objs s' c = objs s c" using f(3) by blast
  show "\<forall>ds0 \<in> set (dataset_objs h). \<forall>v \<in> set (field_values ds0).
               refs_val v \<subseteq> {..< next_free s} \<longrightarrow> (\<forall>tv. deep s' v tv = deep s v tv)"
    by (rule f(4))
  show "\<And>b. res = Inr b \<Longrightarrow> \<forall>v \<in> set (field_values (dataset_objs h' ! b)).
                  refs_val v \<subseteq> {next_free s ..< next_free s'}"
    using f(5) by blast
next
  fix res session' h'
  assume w: "wait_obj successful str session a h = Some (res, session', h')"
  from wait_obj_frame [OF w] assms(3) have ff: "follow_frame session a h (res, session', h')"
    by blast
  from ff show "dataset_objs h' = dataset_objs h" by (simp add: follow_frame_def)
  from ff show "\<exists>new. operation_objs h' = operation_objs h @ new \<and>
               (case res of
                  Inl e \<Rightarrow> length (sent session') = length (sent session) + length new + 1
                | Inr b \<Rightarrow>
                    length (sent session') = length (sent session) + length new \<and>
                    b < length (operation_objs h') \<and> is_terminal (operation_objs h' ! b) \<and>
                    (if new = [] then b = a
                     else b = length (operation_objs h) + length new - 1))"
    by (simp add: follow_frame_def)
next
  fix r session'
  assume w: "wait successful str session (operation_objs h ! a) = Some (r, session')"
  from wait_obj_follows_wait [OF w] assms(3)
  show "\<exists>res h'. wait_obj successful str session a h = Some (res, session', h') \<and>
                       r = map_sum id (nth (operation_objs h')) res"
    by simp
next
  fix res session' h'
  assume "apply_changes_obj successful str from_response session d h = Some (res, session', h')"
  from apply_changes_obj_frame [OF this]
  show "dataset_objs h' = dataset_objs h" and "\<exists>new. operation_objs h' = operation_objs h @ new"
    by blast+
qed

subsection \<open>The sample store\<close>

lemma sample_run:
  "(from_json_st 4 dataset_url (VRef 2) sample_store
      :: ((string error + (string, val) UnifiedDataset) \<times> store) option) =
   Some (Inr sample_dataset, sample_store_copied)"
  by (simp add: from_json_st_def sample_store_def sample_store_copied_def sample_dataset_def
      alloc_def put_obj_def eval_nat_numeral fun_eq_iff)

lemma sample_well_formed: "well_formed sample_store"
  by (auto simp: well_formed_def sample_store_def refs_obj_def less_Suc_eq eval_nat_numeral)

lemma sample_objs:
  "next_free sample_store = 3"
  "objs sample_store 0 = HList [VStr ''id'']"
  "objs sample_store 1 = HList [VRef 0]"
  "objs sample_store 2 = HDict [(''name'', VStr ''ds''), (''keyAttributeNames'', VRef 1)]"
  by (simp_all add: sample_store_def)

lemma sample_deep: "deep sample_store (VRef 2) sample_document"
proof -
  have 0: "deep sample_store (VRef 0) (PyList [PyStr ''id''])"
    by (rule deep_List [OF _ sample_objs(2)]) (simp_all add: sample_objs(1) deep_Str)
  have 1: "deep sample_store (VRef 1) (PyList [PyList [PyStr ''id'']])"
    by (rule deep_List [OF _ sample_objs(3)]) (simp_all add: sample_objs(1) 0)
  have "deep sample_store (VRef 2)
     (PyDict (zip (map fst [(''name'', VStr ''ds''), (''keyAttributeNames'', VRef 1)])
                  [PyStr ''ds'', PyList [PyList [PyStr ''id'']]]))"
    by (rule deep_Dict [OF _ sample_objs(4)]) (use 1 in \<open>simp_all add: sample_objs(1) deep_Str\<close>)
  then show ?thesis by (simp add: sample_document_def)
qed

lemma sample_copied_objs:
  "next_free sample_store_copied = 6"
  "objs sample_store_copied 0 = HList [VStr ''id'']"
  "objs sample_store_copied 1 = HList [VRef 0]"
  "objs sample_store_copied 5 = HList [VStr ''id'']"
  by (simp_all add: sample_store_copied_def sample_store_def)

theorem from_json_st_copies_its_argument_witness:
  "well_formed sample_store \<and> deep sample_store (VRef 2) sample_document \<and>
   (from_json_st 4 dataset_url (VRef 2) sample_store
      :: ((string error + (string, val) UnifiedDataset) \<times> store) option) =
     Some (Inr sample_dataset, sample_store_copied) \<and>
   objs sample_store_copied 0 = objs sample_store 0 \<and>
   objs sample_store_copied 1 = objs sample_store 1 \<and>
   objs sample_store_copied 2 = objs sample_store 2 \<and>
   description sample_dataset = VNone \<and>
   objs sample_store_mutated 0 \<noteq> objs sample_store 0 \<and>
   deep sample_store_mutated (VRef 5) (PyList [PyStr ''id'']) \<and>
   deep sample_store_copied (VRef 5) (PyList [PyStr ''id''])"
proof -
  note t = from_json_st_copies_its_argument
    [where 'e = string and u = dataset_url, OF sample_well_formed sample_deep,
     THEN conjunct2, THEN spec, THEN spec, THEN spec, THEN mp, OF sample_run]
  note frame = t [THEN conjunct1]
  note fresh = t [THEN conjunct2, THEN conjunct1, THEN spec, THEN mp, OF refl, THEN conjunct2]
  note descr = t [THEN conjunct2, THEN conjunct2, THEN spec, THEN spec, THEN mp, THEN conjunct1,
                  THEN spec, THEN mp, OF _ refl]
  from frame have old: "objs sample_store_copied 0 = objs sample_store 0"
    "objs sample_store_copied 1 = objs sample_store 1"
    "objs sample_store_copied 2 = objs sample_store 2"
    by (simp_all add: sample_objs(1))
  have d: "description sample_dataset = VNone"
    by (rule descr [of 2 "[(''name'', VStr ''ds''), (''keyAttributeNames'', VRef 1)]"])
       (simp add: sample_objs(4))
  have c: "deep sample_store_copied (VRef 5) (PyList [PyStr ''id''])"
    by (rule deep_List [OF _ sample_copied_objs(4)]) (simp_all add: sample_copied_objs(1) deep_Str)
  have "next_free sample_store_copied \<le> next_free sample_store_mutated \<and>
        (\<forall>b. next_free sample_store \<le> b \<and> b < next_free sample_store_copied \<longrightarrow>
             objs sample_store_mutated b = objs sample_store_copied b)"
    by (simp add: sample_store_mutated_def put_obj_def sample_objs(1))
  with fresh have "\<forall>v \<in> set (field_values sample_dataset). \<forall>tv.
      deep sample_store_mutated v tv = deep sample_store_copied v tv"
    by blast
  then have "deep sample_store_mutated (VRef 5) (PyList [PyStr ''id'']) =
        deep sample_store_copied (VRef 5) (PyList [PyStr ''id''])"
    by (simp add: sample_dataset_def field_values_def)
  with c have m: "deep sample_store_mutated (VRef 5) (PyList [PyStr ''id''])" by simp
  have ch: "objs sample_store_mutated 0 \<noteq> objs sample_store 0"
    by (simp add: sample_store_mutated_def put_obj_def sample_objs(2))
  from sample_well_formed sample_deep sample_run old d ch m c show ?thesis by blast
qed


lemma sample_run_again:
  "(from_json_st 4 dataset_url (VRef 2) sample_store_copied
      :: ((string error + (string, val) UnifiedDataset) \<times> store) option) =
   Some (Inr sample_dataset_again, sample_store_copied_twice)"
  by (simp add: from_json_st_def sample_store_def sample_store_copied_def sample_dataset_again_def
      sample_store_copied_twice_def alloc_def put_obj_def eval_nat_numeral fun_eq_iff)

theorem from_json_st_twice_equal_witness:
  "well_formed sample_store \<and> deep sample_store (VRef 2) sample_document \<and>
   (from_json_st 4 dataset_url (VRef 2) sample_store
      :: ((string error + (string, val) UnifiedDataset) \<times> store) option) =
     Some (Inr sample_dataset, sample_store_copied) \<and>
   (from_json_st 4 dataset_url (VRef 2) sample_store_copied
      :: ((string error + (string, val) UnifiedDataset) \<times> store) option) =
     Some (Inr sample_dataset_again, sample_store_copied_twice) \<and>
   key_attribute_names sample_dataset \<noteq> key_attribute_names sample_dataset_again \<and>
   equal_datasets sample_store_copied_twice sample_dataset sample_dataset_again"
proof -
  from from_json_st_twice_equal
    [OF sample_well_formed sample_deep sample_run, THEN conjunct2, THEN spec, THEN spec,
     THEN spec, THEN mp, OF sample_run_again]
  have "equal_datasets sample_store_copied_twice sample_dataset sample_dataset_again" by simp
  moreover have "key_attribute_names sample_dataset \<noteq> key_attribute_names sample_dataset_again"
    by (simp add: sample_dataset_def sample_dataset_again_def)
  ultimately show ?thesis
    using sample_well_formed sample_deep sample_run sample_run_again by blast
qed

lemma sample_run_obj:
  "(from_json_obj 4 dataset_url (VRef 2) sample_store sample_instances
      :: ((string error + nat) \<times> store \<times> string instances) option) =
   Some (Inr 1, sample_store_copied,
         sample_instances\<lparr>dataset_objs := [earlier_dataset, sample_dataset]\<rparr>)"
  by (simp add: from_json_obj_def sample_run new_dataset_def sample_instances_def)

lemma sample_follow:
  "wait_obj successful_2xx render
     \<lparr>server = scripted [state_doc ''RUNNING'', state_doc ''SUCCEEDED''], sent = []\<rparr>
     0 sample_instances =
   Some (Inr 2,
         \<lparr>server = scripted [state_doc ''RUNNING'', state_doc ''SUCCEEDED''],
          sent = [get_request (render operation_url), get_request (render operation_url)]\<rparr>,
         sample_instances\<lparr>operation_objs :=
           [\<lparr>Operation.url = operation_url, state = ''PENDING'', Operation.description = PyNone,
             type = PyNone\<rparr>,
            \<lparr>Operation.url = operation_url, state = ''RUNNING'', Operation.description = PyNone,
             type = PyNone\<rparr>,
            \<lparr>Operation.url = operation_url, state = ''SUCCEEDED'', Operation.description = PyNone,
             type = PyNone\<rparr>]\<rparr>)"
  by (simp add: wait_obj.simps poll_obj_def new_operation_def sample_instances_def
      is_terminal_def terminal_states_def poll_def session_get_def issue_def scripted_def
      successful_2xx_def operation_from_json_def state_doc_def)

theorem existing_snapshots_are_not_changed_witness:
  "well_formed sample_store \<and> deep sample_store (VRef 2) sample_document \<and>
   0 < length (operation_objs sample_instances) \<and>
   (dataset_setattr sample_instances 0 ''name'' (VStr ''other'')
      :: (string error + unit) \<times> string instances) = (Inl FrozenInstanceError, sample_instances) \<and>
   (from_json_obj 4 dataset_url (VRef 2) sample_store sample_instances
      :: ((string error + nat) \<times> store \<times> string instances) option) =
     Some (Inr 1, sample_store_copied,
           sample_instances\<lparr>dataset_objs := [earlier_dataset, sample_dataset]\<rparr>) \<and>
   deep sample_store (VRef 0) (PyList [PyStr ''id'']) \<and>
   deep sample_store_copied (VRef 0) (PyList [PyStr ''id'']) \<and>
   refs_val (VRef 5) \<subseteq> {next_free sample_store ..< next_free sample_store_copied} \<and>
   wait_obj successful_2xx render
     \<lparr>server = scripted [state_doc ''RUNNING'', state_doc ''SUCCEEDED''], sent = []\<rparr>
     0 sample_instances =
   Some (Inr 2,
         \<lparr>server = scripted [state_doc ''RUNNING'', state_doc ''SUCCEEDED''],
          sent = [get_request (render operation_url), get_request (render operation_url)]\<rparr>,
         sample_instances\<lparr>operation_objs :=
           [\<lparr>Operation.url = operation_url, state = ''PENDING'', Operation.description = PyNone,
             type = PyNone\<rparr>,
            \<lparr>Operation.url = operation_url, state = ''RUNNING'', Operation.description = PyNone,
             type = PyNone\<rparr>,
            \<lparr>Operation.url = operation_url, state = ''SUCCEEDED'', Operation.description = PyNone,
             type = PyNone\<rparr>]\<rparr>) \<and>
   operation_objs sample_instances =
     [\<lparr>Operation.url = operation_url, state = ''PENDING'', Operation.description = PyNone,
       type = PyNone\<rparr>]"
proof -
  let ?s = "\<lparr>server = scripted [state_doc ''RUNNING'', state_doc ''SUCCEEDED''], sent = []\<rparr>"
  have a: "0 < length (operation_objs sample_instances)" by (simp add: sample_instances_def)
  note t = existing_snapshots_are_not_changed
    [where 'e = string and 'y = string and u = dataset_url and h = sample_instances
       and successful = successful_2xx and str = render and session = ?s and d = 0
       and field = "''name''" and v = "VStr ''other''" and from_response = from_response_fixed,
     OF sample_well_formed sample_deep a]
  note frozen = t [THEN conjunct1]
  note decode = t [THEN conjunct2, THEN conjunct2, THEN conjunct2, THEN conjunct1,
                   THEN spec, THEN spec, THEN spec, THEN spec, THEN mp, OF sample_run_obj]
  have 0: "deep sample_store (VRef 0) (PyList [PyStr ''id''])"
    by (rule deep_List [OF _ sample_objs(2)]) (simp_all add: sample_objs(1) deep_Str)
  from decode [THEN conjunct2, THEN conjunct2, THEN conjunct2, THEN conjunct1]
  have "deep sample_store_copied (VRef 0) (PyList [PyStr ''id'']) =
      deep sample_store (VRef 0) (PyList [PyStr ''id''])"
    by (simp add: sample_instances_def earlier_dataset_def field_values_def sample_objs(1))
  with 0 have 1: "deep sample_store_copied (VRef 0) (PyList [PyStr ''id''])" by simp
  from decode [THEN conjunct2, THEN conjunct2, THEN conjunct2, THEN conjunct2]
  have 2: "refs_val (VRef 5) \<subseteq> {next_free sample_store ..< next_free sample_store_copied}"
    by (simp add: sample_dataset_def field_values_def)
  have 3: "operation_objs sample_instances =
     [\<lparr>Operation.url = operation_url, state = ''PENDING'', Operation.description = PyNone,
       type = PyNone\<rparr>]"
    by (simp add: sample_instances_def)
  from sample_well_formed sample_deep a frozen sample_run_obj 0 1 2 sample_follow 3
  show ?thesis by blast
qed

end
